theory Spec2Isabelle
  imports Complex_Main "HOL-Library.AList"
begin

section \<open>The browser's object URLs\<close>

text \<open>
  \<^verbatim>\<open>URL.createObjectURL\<close> hands out a blob URL that no earlier call returned, and
  \<^verbatim>\<open>URL.revokeObjectURL\<close> releases one. A URL is modelled by the number of the call
  that created it. The browser state is the counter and the chronological list of the
  calls the handler has made; these two calls are the only ones the handler makes.
  \<^verbatim>\<open>revokeObjectURL(undefined)\<close> is a call too (the argument is then \<open>None\<close>).
\<close>

type_synonym url = nat

datatype effect = CreateObjectURL url | RevokeObjectURL "url option"

record browser =
  next_url :: nat
  trace :: "effect list"

definition browser0 :: browser where
  "browser0 = \<lparr>next_url = 0, trace = []\<rparr>"

definition createObjectURL :: "browser \<Rightarrow> url \<times> browser" where
  "createObjectURL w =
     (next_url w,
      w\<lparr>next_url := Suc (next_url w), trace := trace w @ [CreateObjectURL (next_url w)]\<rparr>)"

definition revokeObjectURL :: "url option \<Rightarrow> browser \<Rightarrow> browser" where
  "revokeObjectURL u w = w\<lparr>trace := trace w @ [RevokeObjectURL u]\<rparr>"

text \<open>The URLs created and not yet revoked after a run of calls, oldest first.\<close>

fun live_step :: "url list \<Rightarrow> effect \<Rightarrow> url list" where
  "live_step l (CreateObjectURL u) = l @ [u]"
| "live_step l (RevokeObjectURL None) = l"
| "live_step l (RevokeObjectURL (Some u)) = removeAll u l"

definition live_urls :: "effect list \<Rightarrow> url list" where
  "live_urls es = foldl live_step [] es"

text \<open>The largest number of live URLs at any moment of a run, the start included.\<close>

fun peak_from :: "url list \<Rightarrow> effect list \<Rightarrow> nat" where
  "peak_from l [] = length l"
| "peak_from l (e # es) = max (length l) (peak_from (live_step l e) es)"

definition peak_live :: "effect list \<Rightarrow> nat" where
  "peak_live es = peak_from [] es"

section \<open>LRUCache\<close>

text \<open>
  A JavaScript \<^verbatim>\<open>Map\<close> keeps its entries in insertion order: \<^verbatim>\<open>set\<close> on a present key
  replaces the value in place, on a new key appends. That is \<^const>\<open>AList.update\<close>;
  \<^verbatim>\<open>delete\<close> is \<^const>\<open>AList.delete\<close> and \<^verbatim>\<open>get\<close> is \<^const>\<open>map_of\<close>.
\<close>

type_synonym ('k, 'v) jsmap = "('k \<times> 'v) list"

definition map_has :: "('k, 'v) jsmap \<Rightarrow> 'k \<Rightarrow> bool" where
  "map_has m k = (map_of m k \<noteq> None)"

record lru =
  maxSize :: int
  cache :: "(string, url) jsmap"
  accessOrder :: "string list"

definition LRUCache_new :: "int \<Rightarrow> lru" where
  "LRUCache_new n = \<lparr>maxSize = n, cache = [], accessOrder = []\<rparr>"

definition LRUCache_get :: "string \<Rightarrow> lru \<Rightarrow> url option \<times> lru" where
  "LRUCache_get key c =
     (if \<not> map_has (cache c) key then (None, c)
      else (map_of (cache c) key,
            c\<lparr>accessOrder := filter (\<lambda>k. k \<noteq> key) (accessOrder c) @ [key]\<rparr>))"

text \<open>
  \<^verbatim>\<open>set(key, value, onEvict)\<close>. The callback receives the evicted key and value; both
  are \<^verbatim>\<open>undefined\<close> (\<open>None\<close>) when \<^verbatim>\<open>accessOrder.shift()\<close> finds the order empty.
\<close>

definition LRUCache_set ::
  "string \<Rightarrow> url \<Rightarrow> (string option \<Rightarrow> url option \<Rightarrow> 'w \<Rightarrow> 'w) option \<Rightarrow> lru \<times> 'w \<Rightarrow> lru \<times> 'w" where
  "LRUCache_set key val onEvict cw =
     (let c = fst cw; w = snd cw in
      if map_has (cache c) key
      then (snd (LRUCache_get key (c\<lparr>cache := AList.update key val (cache c)\<rparr>)), w)
      else
        let (c1, w1) =
          (if int (length (cache c)) \<ge> maxSize c
           then (case accessOrder c of
                   [] \<Rightarrow> (c, (case onEvict of None \<Rightarrow> w | Some f \<Rightarrow> f None None w))
                 | lru # rest \<Rightarrow>
                     (c\<lparr>accessOrder := rest, cache := AList.delete lru (cache c)\<rparr>,
                      (case onEvict of None \<Rightarrow> w
                       | Some f \<Rightarrow> f (Some lru) (map_of (cache c) lru) w)))
           else (c, w))
        in (c1\<lparr>cache := AList.update key val (cache c1),
                accessOrder := accessOrder c1 @ [key]\<rparr>, w1))"

definition LRUCache_clear ::
  "(string option \<Rightarrow> url option \<Rightarrow> 'w \<Rightarrow> 'w) option \<Rightarrow> lru \<times> 'w \<Rightarrow> lru \<times> 'w" where
  "LRUCache_clear onEvict cw =
     (let c = fst cw; w = snd cw in
      (c\<lparr>cache := [], accessOrder := []\<rparr>,
       (case onEvict of None \<Rightarrow> w
        | Some f \<Rightarrow> foldl (\<lambda>w' (k, v). f (Some k) (Some v) w') w (cache c))))"

definition LRUCache_size :: "lru \<Rightarrow> nat" where
  "LRUCache_size c = length (cache c)"

section \<open>Strings\<close>

text \<open>
  A string is a list of 8-bit characters. \<^verbatim>\<open>s.split(c)\<close> with a one-character
  separator always yields at least one piece; \<^verbatim>\<open>.pop()\<close> takes the last one.
\<close>

fun split_on :: "char \<Rightarrow> string \<Rightarrow> string list" where
  "split_on c [] = [[]]"
| "split_on c (x # xs) =
     (if x = c then [] # split_on c xs
      else (case split_on c xs of [] \<Rightarrow> [[x]] | y # ys \<Rightarrow> (x # y) # ys))"

definition last_piece :: "char \<Rightarrow> string \<Rightarrow> string" where
  "last_piece c s = last (split_on c s)"

fun startsWith :: "string \<Rightarrow> string \<Rightarrow> bool" where
  "startsWith s [] = True"
| "startsWith [] (p # ps) = False"
| "startsWith (x # xs) (p # ps) = (x = p \<and> startsWith xs ps)"

definition endsWith :: "string \<Rightarrow> string \<Rightarrow> bool" where
  "endsWith s suf = startsWith (rev s) (rev suf)"

text \<open>
  \<^verbatim>\<open>toLowerCase\<close> on the ASCII letters. Every string the source compares a lower-cased
  string with is ASCII, and no character outside ASCII lower-cases into ASCII within
  8 bits, so leaving the other characters alone does not change any comparison.
\<close>

definition lower_char :: "char \<Rightarrow> char" where
  "lower_char c =
     (case map_of (zip ''ABCDEFGHIJKLMNOPQRSTUVWXYZ'' ''abcdefghijklmnopqrstuvwxyz'') c of
        None \<Rightarrow> c | Some l \<Rightarrow> l)"

definition toLowerCase :: "string \<Rightarrow> string" where
  "toLowerCase s = map lower_char s"

section \<open>ZipHandler\<close>

text \<open>
  The payload type \<open>'d\<close> is the \<^verbatim>\<open>Uint8Array\<close> of an entry. \<^verbatim>\<open>chatContent\<close> and
  \<^verbatim>\<open>chatFilename\<close> are \<open>None\<close> for \<^verbatim>\<open>null\<close>.
\<close>

record 'd ziphandler =
  maxCacheSize :: int
  urlCache :: lru
  mediaFiles :: "(string, 'd) jsmap"
  chatContent :: "string option"
  chatFilename :: "string option"
  isLoaded :: bool

text \<open>\<^verbatim>\<open>options.maxCacheSize || 50\<close>: an absent or zero option gives 50.\<close>

definition ZipHandler_new :: "int option \<Rightarrow> 'd ziphandler" where
  "ZipHandler_new opt =
     (let n = (case opt of None \<Rightarrow> 50 | Some k \<Rightarrow> if k = 0 then 50 else k) in
      \<lparr>maxCacheSize = n, urlCache = LRUCache_new n, mediaFiles = [],
       chatContent = None, chatFilename = None, isLoaded = False\<rparr>)"

definition mediaExtensions :: "string list" where
  "mediaExtensions =
     [''jpg'', ''jpeg'', ''png'', ''gif'', ''webp'',
      ''mp4'', ''3gp'', ''mov'', ''avi'', ''mkv'', ''webm'',
      ''opus'', ''mp3'', ''aac'', ''m4a'', ''wav'',
      ''pdf'', ''doc'', ''docx'', ''xls'', ''xlsx'', ''ppt'', ''pptx'', ''txt'', ''vcf'']"

definition isMediaFile :: "string \<Rightarrow> bool" where
  "isMediaFile filename =
     (if filename = [] then False
      else toLowerCase (last_piece CHR ''.'' filename) \<in> set mediaExtensions)"

text \<open>The eviction callback of \<^verbatim>\<open>getMediaURL\<close> and \<^verbatim>\<open>clear\<close>: revoke the evicted URL.\<close>

definition revoke_evicted :: "string option \<Rightarrow> url option \<Rightarrow> browser \<Rightarrow> browser" where
  "revoke_evicted k u w = revokeObjectURL u w"

text \<open>
  \<^verbatim>\<open>getMediaURL(filename)\<close>. A cached URL is a non-empty string, hence truthy, so
  \<^verbatim>\<open>if (cached)\<close> is the test that the cache returned one. The blob and its MIME type
  do not influence which URL is returned and are not modelled.
\<close>

definition getMediaURL ::
  "string \<Rightarrow> 'd ziphandler \<times> browser \<Rightarrow> url option \<times> 'd ziphandler \<times> browser" where
  "getMediaURL filename hw =
     (let h = fst hw; w = snd hw in
      if filename = [] \<or> \<not> map_has (mediaFiles h) filename then (None, h, w)
      else
        (case LRUCache_get filename (urlCache h) of
           (Some cached, c1) \<Rightarrow> (Some cached, h\<lparr>urlCache := c1\<rparr>, w)
         | (None, c1) \<Rightarrow>
             let (u, w1) = createObjectURL w;
                 (c2, w2) = LRUCache_set filename u (Some revoke_evicted) (c1, w1)
             in (Some u, h\<lparr>urlCache := c2\<rparr>, w2)))"

record cache_stats =
  cacheSize :: nat
  stats_maxCacheSize :: int
  totalMedia :: nat
  cacheUtilization :: real

definition getCacheStats :: "'d ziphandler \<Rightarrow> cache_stats" where
  "getCacheStats h =
     \<lparr>cacheSize = LRUCache_size (urlCache h),
      stats_maxCacheSize = maxCacheSize h,
      totalMedia = length (mediaFiles h),
      cacheUtilization =
        (real (LRUCache_size (urlCache h)) / real_of_int (maxCacheSize h)) * 100\<rparr>"

definition evictFromCache :: "string \<Rightarrow> 'd ziphandler \<times> browser \<Rightarrow> 'd ziphandler \<times> browser" where
  "evictFromCache filename hw =
     (let h = fst hw; w = snd hw in
      case LRUCache_get filename (urlCache h) of
        (Some u, c1) \<Rightarrow>
          (h\<lparr>urlCache := c1\<lparr>cache := AList.delete filename (cache c1),
                              accessOrder := filter (\<lambda>k. k \<noteq> filename) (accessOrder c1)\<rparr>\<rparr>,
           revokeObjectURL (Some u) w)
      | (None, c1) \<Rightarrow> (h\<lparr>urlCache := c1\<rparr>, w))"

definition clear :: "'d ziphandler \<times> browser \<Rightarrow> 'd ziphandler \<times> browser" where
  "clear hw =
     (let h = fst hw; w = snd hw;
          (c1, w1) = LRUCache_clear (Some revoke_evicted) (urlCache h, w)
      in (h\<lparr>urlCache := c1, mediaFiles := [], chatContent := None,
             chatFilename := None, isLoaded := False\<rparr>, w1))"

text \<open>
  \<^verbatim>\<open>loadZip(file)\<close>. The argument is what the source can observe of it: not a
  \<^verbatim>\<open>Blob\<close>, a blob that \<^verbatim>\<open>unzipSync\<close> rejects (or no unzip library), or the unzipped
  entries in the order \<^verbatim>\<open>Object.entries\<close> gives them. \<open>decode\<close> is the UTF-8
  \<^verbatim>\<open>TextDecoder\<close>. Both failures are raised before anything is cleared.
\<close>

datatype 'd zipfile = NotABlob | Unreadable | Unzipped "(string \<times> 'd) list"

datatype load_error = InvalidFile | FailedToLoad

record load_result =
  success :: bool
  chatFound :: bool
  res_chatFilename :: "string option"
  mediaCount :: nat
  res_mediaFiles :: "string list"

text \<open>One turn of the loop over the entries; \<^verbatim>\<open>!this.chatContent\<close> holds for \<^verbatim>\<open>null\<close> and for the empty string.\<close>

definition loadZip_entry :: "('d \<Rightarrow> string) \<Rightarrow> 'd ziphandler \<Rightarrow> string \<times> 'd \<Rightarrow> 'd ziphandler" where
  "loadZip_entry decode h e =
     (let filename = last_piece CHR ''/'' (fst e); data = snd e in
      if endsWith filename ''.txt'' \<and> (chatContent h = None \<or> chatContent h = Some [])
      then h\<lparr>chatContent := Some (decode data), chatFilename := Some filename\<rparr>
      else if isMediaFile filename
      then h\<lparr>mediaFiles := AList.update filename data (mediaFiles h)\<rparr>
      else h)"

definition loadZip ::
  "('d \<Rightarrow> string) \<Rightarrow> 'd zipfile \<Rightarrow> 'd ziphandler \<times> browser
     \<Rightarrow> (load_error + load_result) \<times> 'd ziphandler \<times> browser" where
  "loadZip decode file hw =
     (case file of
        NotABlob \<Rightarrow> (Inl InvalidFile, hw)
      | Unreadable \<Rightarrow> (Inl FailedToLoad, hw)
      | Unzipped entries \<Rightarrow>
          let (h0, w1) = clear hw;
              h1 = foldl (loadZip_entry decode) h0 entries;
              h2 = h1\<lparr>isLoaded := True\<rparr>
          in (Inr \<lparr>success = True,
                   chatFound = (chatContent h2 \<noteq> None \<and> chatContent h2 \<noteq> Some []),
                   res_chatFilename = chatFilename h2,
                   mediaCount = length (mediaFiles h2),
                   res_mediaFiles = map fst (mediaFiles h2)\<rparr>, h2, w1))"

text \<open>\<^verbatim>\<open>preloadMedia(filenames)\<close>: resolve each name in turn and report what came back.\<close>

record preload_entry =
  pre_filename :: string
  pre_url :: "url option"
  cached :: bool

fun preloadMedia ::
  "string list \<Rightarrow> 'd ziphandler \<times> browser \<Rightarrow> preload_entry list \<times> 'd ziphandler \<times> browser" where
  "preloadMedia [] hw = ([], hw)"
| "preloadMedia (filename # rest) hw =
     (case getMediaURL filename hw of
        (u, hw1) \<Rightarrow>
          (case preloadMedia rest hw1 of
             (results, hw2) \<Rightarrow>
               (\<lparr>pre_filename = filename, pre_url = u, cached = (u \<noteq> None)\<rparr> # results, hw2)))"

subsection \<open>Example archives\<close>

text \<open>
  The archive of the repository's ``Missing Files Tracking'' tests (a chat and two
  photos, cache size 3), and the names \<^verbatim>\<open>missing0.jpg\<close>, \<^verbatim>\<open>missing00.jpg\<close>, ... that
  are not in it.
\<close>

definition photo_archive :: "string zipfile" where
  "photo_archive =
     Unzipped [(''chat.txt'', ''Chat''), (''photo1.jpg'', ''abc''), (''photo2.jpg'', ''def'')]"

definition photo_handler :: "string ziphandler \<times> browser" where
  "photo_handler = snd (loadZip id photo_archive (ZipHandler_new (Some 3), browser0))"

definition missing_name :: "nat \<Rightarrow> string" where
  "missing_name i = ''missing'' @ replicate (Suc i) CHR ''0'' @ ''.jpg''"

text \<open>The handler of the repository's ``LRU Cache'' test: cache size 3 and four files.\<close>

definition four_files :: "string ziphandler" where
  "four_files = (ZipHandler_new (Some 3))\<lparr>mediaFiles :=
      [(''file1.jpg'', ''1''), (''file2.jpg'', ''2''), (''file3.jpg'', ''3''), (''file4.jpg'', ''4'')]\<rparr>"

subsection \<open>Runs of the handler's operations\<close>

text \<open>The operations of \<^verbatim>\<open>ZipHandler\<close> that change it or the browser, and a run of them.\<close>

datatype 'd op =
  LoadZip "'d zipfile"
| GetMediaURL string
| PreloadMedia "string list"
| EvictFromCache string
| Clear

fun exec :: "('d \<Rightarrow> string) \<Rightarrow> 'd ziphandler \<times> browser \<Rightarrow> 'd op \<Rightarrow> 'd ziphandler \<times> browser" where
  "exec decode hw (LoadZip file) = snd (loadZip decode file hw)"
| "exec decode hw (GetMediaURL filename) = snd (getMediaURL filename hw)"
| "exec decode hw (PreloadMedia filenames) = snd (preloadMedia filenames hw)"
| "exec decode hw (EvictFromCache filename) = evictFromCache filename hw"
| "exec decode hw Clear = clear hw"

definition run :: "('d \<Rightarrow> string) \<Rightarrow> 'd op list \<Rightarrow> 'd ziphandler \<times> browser \<Rightarrow> 'd ziphandler \<times> browser" where
  "run decode ops hw = foldl (exec decode) hw ops"

text \<open>
  What holds of the cache and the live URLs between operations: keys and cached URLs are
  distinct, the access order lists exactly the keys, the live URLs are exactly the cached
  ones and older than the next one, and the cache is within its (positive) size.
\<close>

definition lru_ok :: "lru \<Rightarrow> url list \<Rightarrow> nat \<Rightarrow> bool" where
  "lru_ok c l n \<longleftrightarrow>
     distinct (map fst (cache c)) \<and> distinct (accessOrder c)
     \<and> set (accessOrder c) = fst ` set (cache c)
     \<and> distinct (map snd (cache c)) \<and> distinct l \<and> set l = snd ` set (cache c)
     \<and> list_all (\<lambda>u. u < n) l
     \<and> 1 \<le> maxSize c \<and> int (length (cache c)) \<le> maxSize c"

definition cache_inv :: "int \<Rightarrow> 'd ziphandler \<times> browser \<Rightarrow> bool" where
  "cache_inv n hw \<longleftrightarrow>
     maxSize (urlCache (fst hw)) = n
     \<and> lru_ok (urlCache (fst hw)) (live_urls (trace (snd hw))) (next_url (snd hw))
     \<and> int (peak_live (trace (snd hw))) \<le> n + 1"

section \<open>Regular expressions\<close>

text \<open>
  The source's patterns are JavaScript regular expressions. They are embedded as terms of
  \<open>re\<close>, one constructor per construct the patterns use, and matched the way JavaScript's
  backtracking matcher does: \<open>rmatch r s c\<close> lists every way \<open>r\<close> can match a prefix of
  \<open>s\<close>, as the rest of the input and the captures, in the order the matcher tries them
  (a greedy quantifier tries one more repetition first, a lazy one tries to stop first,
  an alternation tries its left side first). The first element is the match JavaScript
  reports. A repetition that consumes nothing is not retried, as in JavaScript.
\<close>

datatype re =
  Eps
| Atom "char \<Rightarrow> bool"
| Seq re re
| Alt re re
| Star re
| LazyStar re
| Grp nat re
| Eol

type_synonym caps = "(nat \<times> string) list"

function rmatch :: "re \<Rightarrow> string \<Rightarrow> caps \<Rightarrow> (string \<times> caps) list" where
  "rmatch Eps s c = [(s, c)]"
| "rmatch (Atom p) s c = (case s of [] \<Rightarrow> [] | x # xs \<Rightarrow> if p x then [(xs, c)] else [])"
| "rmatch (Seq a b) s c = concat (map (\<lambda>sc. rmatch b (fst sc) (snd sc)) (rmatch a s c))"
| "rmatch (Alt a b) s c = rmatch a s c @ rmatch b s c"
| "rmatch (Star a) s c =
     concat (map (\<lambda>sc. rmatch (Star a) (fst sc) (snd sc))
               (filter (\<lambda>sc. length (fst sc) < length s) (rmatch a s c))) @ [(s, c)]"
| "rmatch (LazyStar a) s c =
     (s, c) # concat (map (\<lambda>sc. rmatch (LazyStar a) (fst sc) (snd sc))
               (filter (\<lambda>sc. length (fst sc) < length s) (rmatch a s c)))"
| "rmatch (Grp i a) s c =
     map (\<lambda>sc. (fst sc, (i, take (length s - length (fst sc)) s) # snd sc)) (rmatch a s c)"
| "rmatch Eol s c = (if s = [] then [(s, c)] else [])"
  by pat_completeness auto
termination
  by (relation "inv_image (less_than <*lex*> less_than) (\<lambda>x. (size (fst x), length (fst (snd x))))")
     auto

declare rmatch.simps [simp del]

text \<open>
  The result of \<^verbatim>\<open>String.prototype.match\<close> without the \<^verbatim>\<open>g\<close> flag: the text before the
  match, the match, the text after it, and the captures. A group that took no part in the
  match is \<^verbatim>\<open>undefined\<close> (\<open>None\<close>).
\<close>

record re_match =
  m_before :: string
  m_whole :: string
  m_after :: string
  m_groups :: caps

definition match_at :: "re \<Rightarrow> string \<Rightarrow> string \<Rightarrow> re_match option" where
  "match_at r pre s =
     (case rmatch r s [] of
        [] \<Rightarrow> None
      | sc # _ \<Rightarrow> Some \<lparr>m_before = pre, m_whole = take (length s - length (fst sc)) s,
                        m_after = fst sc, m_groups = snd sc\<rparr>)"

text \<open>A pattern that begins with \<^verbatim>\<open>^\<close> can only match at the start of the string.\<close>

definition match_start :: "re \<Rightarrow> string \<Rightarrow> re_match option" where
  "match_start r s = match_at r [] s"

text \<open>Any other pattern matches at the leftmost position where it can, the end included.\<close>

fun search_from :: "re \<Rightarrow> string \<Rightarrow> string \<Rightarrow> re_match option" where
  "search_from r pre [] = match_at r pre []"
| "search_from r pre (x # xs) =
     (case match_at r pre (x # xs) of
        Some m \<Rightarrow> Some m
      | None \<Rightarrow> search_from r (pre @ [x]) xs)"

definition search :: "re \<Rightarrow> string \<Rightarrow> re_match option" where
  "search r s = search_from r [] s"

definition grp :: "re_match \<Rightarrow> nat \<Rightarrow> string option" where
  "grp m i = map_of (m_groups m) i"

text \<open>A group that takes part in every match of its pattern.\<close>

definition grp_text :: "re_match \<Rightarrow> nat \<Rightarrow> string" where
  "grp_text m i = (case grp m i of None \<Rightarrow> [] | Some s \<Rightarrow> s)"

subsection \<open>Pattern syntax\<close>

fun seqs :: "re list \<Rightarrow> re" where
  "seqs [] = Eps"
| "seqs [r] = r"
| "seqs (r # rs) = Seq r (seqs rs)"

fun alts :: "re list \<Rightarrow> re" where
  "alts [] = Eps"
| "alts [r] = r"
| "alts (r # rs) = Alt r (alts rs)"

definition opt :: "re \<Rightarrow> re" where "opt r = Alt r Eps"
definition plus :: "re \<Rightarrow> re" where "plus r = Seq r (Star r)"
definition lazy_plus :: "re \<Rightarrow> re" where "lazy_plus r = Seq r (LazyStar r)"

definition lit :: "char \<Rightarrow> re" where "lit c = Atom (\<lambda>x. x = c)"

text \<open>A literal character and a literal string under the \<^verbatim>\<open>i\<close> flag.\<close>

definition ilit :: "char \<Rightarrow> re" where "ilit c = Atom (\<lambda>x. lower_char x = lower_char c)"
definition istr :: "string \<Rightarrow> re" where "istr s = seqs (map ilit s)"

text \<open>
  \<^verbatim>\<open>\d\<close>, \<^verbatim>\<open>\s\<close> (white space and line terminators), \<^verbatim>\<open>\w\<close> and \<^verbatim>\<open>.\<close> (anything but a
  line terminator), on 8-bit characters.
\<close>

definition is_digit :: "char \<Rightarrow> bool" where
  "is_digit c = (c \<in> set ''0123456789'')"

definition is_space :: "char \<Rightarrow> bool" where
  "is_space c = (c \<in> set [CHR 0x09, CHR 0x0A, CHR 0x0B, CHR 0x0C, CHR 0x0D, CHR '' '', CHR 0xA0])"

definition is_word :: "char \<Rightarrow> bool" where
  "is_word c =
     (c \<in> set ''abcdefghijklmnopqrstuvwxyzABCDEFGHIJKLMNOPQRSTUVWXYZ0123456789_'')"

definition is_dot :: "char \<Rightarrow> bool" where
  "is_dot c = (c \<noteq> CHR 0x0A \<and> c \<noteq> CHR 0x0D)"

definition digit :: re where "digit = Atom is_digit"
definition space :: re where "space = Atom is_space"

text \<open>\<^verbatim>\<open>\d{1,2}\<close>, \<^verbatim>\<open>\d{2}\<close> and \<^verbatim>\<open>\d{2,4}\<close>.\<close>

definition d12 :: re where "d12 = Seq digit (opt digit)"
definition d2 :: re where "d2 = Seq digit digit"
definition d24 :: re where "d24 = Seq digit (Seq digit (opt (Seq digit (opt digit))))"

section \<open>MessageParser\<close>

subsection \<open>The patterns\<close>

text \<open>\<^verbatim>\<open>\d{1,2}[/.]\d{1,2}[/.]\d{2,4}\<close>\<close>

definition date_sep :: re where "date_sep = Atom (\<lambda>c. c = CHR ''/'' \<or> c = CHR ''.'')"

definition date_re :: re where
  "date_re = seqs [d12, date_sep, d12, date_sep, d24]"

text \<open>\<^verbatim>\<open>\d{1,2}:\d{2}(?::\d{2})?(?:\s*[AP]M)?\<close>\<close>

definition am_pm :: re where
  "am_pm = Seq (Atom (\<lambda>c. c = CHR ''A'' \<or> c = CHR ''P'')) (lit CHR ''M'')"

definition time_re :: re where
  "time_re = seqs [d12, lit CHR '':'', d2, opt (Seq (lit CHR '':'') d2),
                   opt (Seq (Star space) am_pm)]"

text \<open>\<^verbatim>\<open>/^\[(DATE),?\s+(TIME)\]\s+([^:]+?):\s*(.*)/\<close>\<close>

definition bracket :: re where
  "bracket = seqs [lit CHR ''['', Grp 1 date_re, opt (lit CHR '',''), plus space,
                   Grp 2 time_re, lit CHR '']'', plus space,
                   Grp 3 (lazy_plus (Atom (\<lambda>c. c \<noteq> CHR '':''))), lit CHR '':'', Star space,
                   Grp 4 (Star (Atom is_dot))]"

text \<open>\<^verbatim>\<open>/^(DATE),?\s+(TIME)\s*-\s*([^:]+?):\s*(.*)/\<close>\<close>

definition dash :: re where
  "dash = seqs [Grp 1 date_re, opt (lit CHR '',''), plus space, Grp 2 time_re,
                Star space, lit CHR ''-'', Star space,
                Grp 3 (lazy_plus (Atom (\<lambda>c. c \<noteq> CHR '':''))), lit CHR '':'', Star space,
                Grp 4 (Star (Atom is_dot))]"

text \<open>\<^verbatim>\<open>/^(DATE),?\s+(TIME)\s*-\s*(.*)/\<close>\<close>

definition systemDash :: re where
  "systemDash = seqs [Grp 1 date_re, opt (lit CHR '',''), plus space, Grp 2 time_re,
                      Star space, lit CHR ''-'', Star space, Grp 3 (Star (Atom is_dot))]"

text \<open>\<^verbatim>\<open>/<attached:\s*([^>]+)>/\<close>\<close>

definition attachment :: re where
  "attachment = seqs (map lit ''<attached:'' @
                      [Star space, Grp 1 (plus (Atom (\<lambda>c. c \<noteq> CHR ''>''))), lit CHR ''>''])"

text \<open>
  \<^verbatim>\<open>/(<Media omitted>|image omitted|video omitted|audio omitted|document omitted|Contact card omitted|Location: https:\/\/maps\.google\.com)/i\<close>
\<close>

definition omitted_phrases :: "string list" where
  "omitted_phrases =
     [''<Media omitted>'', ''image omitted'', ''video omitted'', ''audio omitted'',
      ''document omitted'', ''Contact card omitted'', ''Location: https://maps.google.com'']"

definition mediaOmitted :: re where
  "mediaOmitted = Grp 1 (alts (map istr omitted_phrases))"

text \<open>The time pattern of \<^verbatim>\<open>parseDate\<close>: \<^verbatim>\<open>/(\d{1,2}):(\d{2})(?::(\d{2}))?(?:\s*([AP]M))?/\<close>\<close>

definition time_parts_re :: re where
  "time_parts_re = seqs [Grp 1 d12, lit CHR '':'', Grp 2 d2, opt (Seq (lit CHR '':'') (Grp 3 d2)),
                         opt (Seq (Star space) (Grp 4 am_pm))]"

text \<open>
  The patterns of \<^verbatim>\<open>extractMediaInfo\<close>:
  \<^verbatim>\<open>/\.(jpg|jpeg|...|vcf)$/i\<close> and \<^verbatim>\<open>/^([\w\-]+(?:\s+[\w\-]+)*\.\w{2,4})(?:\s|$)/\<close>.
\<close>

definition mediaExtensions_re :: re where
  "mediaExtensions_re = seqs [lit CHR ''.'', Grp 1 (alts (map istr mediaExtensions)), Eol]"

definition word_dash :: re where
  "word_dash = Atom (\<lambda>c. is_word c \<or> c = CHR ''-'')"

definition filenamePattern :: re where
  "filenamePattern =
     Seq (Grp 1 (seqs [plus word_dash, Star (Seq (plus space) (plus word_dash)), lit CHR ''.'',
                       Atom is_word, Atom is_word, opt (Seq (Atom is_word) (opt (Atom is_word)))]))
         (Alt space Eol)"

subsection \<open>String helpers\<close>

text \<open>\<^verbatim>\<open>trim\<close> removes white space and line terminators, the characters of \<^verbatim>\<open>\s\<close>, at both ends.\<close>

definition trim :: "string \<Rightarrow> string" where
  "trim s = rev (dropWhile is_space (rev (dropWhile is_space s)))"

text \<open>\<^verbatim>\<open>s.split(/[/.]/)\<close>: split at every character of a class.\<close>

fun split_where :: "(char \<Rightarrow> bool) \<Rightarrow> string \<Rightarrow> string list" where
  "split_where p [] = [[]]"
| "split_where p (x # xs) =
     (if p x then [] # split_where p xs
      else (case split_where p xs of [] \<Rightarrow> [[x]] | y # ys \<Rightarrow> (x # y) # ys))"

text \<open>
  \<^verbatim>\<open>parseInt(s, 10)\<close>: skip leading white space, read an optional sign and the digits
  that follow, ignore the rest; \<^verbatim>\<open>NaN\<close> (\<open>None\<close>) when there is no digit.
\<close>

definition digit_value :: "char \<Rightarrow> int" where
  "digit_value c =
     (case map_of (zip ''0123456789'' [0, 1, 2, 3, 4, 5, 6, 7, 8, 9]) c of
        None \<Rightarrow> 0 | Some v \<Rightarrow> v)"

definition digits_value :: "string \<Rightarrow> int" where
  "digits_value ds = foldl (\<lambda>a c. 10 * a + digit_value c) 0 ds"

definition parseInt :: "string \<Rightarrow> int option" where
  "parseInt s =
     (let s1 = dropWhile is_space s;
          sign = (case s1 of [] \<Rightarrow> 1 | c # _ \<Rightarrow> if c = CHR ''-'' then - 1 else (1::int));
          s2 = (case s1 of [] \<Rightarrow> [] | c # r \<Rightarrow> if c = CHR ''-'' \<or> c = CHR ''+'' then r else s1);
          ds = takeWhile is_digit s2
      in if ds = [] then None else Some (sign * digits_value ds))"

subsection \<open>The JavaScript Date\<close>

text \<open>
  A \<^verbatim>\<open>Date\<close> is its time value, the milliseconds since the epoch. The local time zone is
  taken to be UTC (no offset and no daylight saving). Days are counted in the proleptic
  Gregorian calendar, as ECMAScript does: \<open>days_from_civil y m d\<close> is the day number of
  year \<open>y\<close>, month \<open>m\<close> (1 to 12), day \<open>d\<close>, and \<open>civil_from_days\<close> is its inverse.
\<close>

type_synonym jsdate = int

definition msPerDay :: int where "msPerDay = 86400000"

definition days_from_civil :: "int \<Rightarrow> int \<Rightarrow> int \<Rightarrow> int" where
  "days_from_civil y m d =
     (let y1 = (if m \<le> 2 then y - 1 else y);
          era = y1 div 400;
          yoe = y1 - era * 400;
          doy = (153 * (if m > 2 then m - 3 else m + 9) + 2) div 5 + d - 1;
          doe = yoe * 365 + yoe div 4 - yoe div 100 + doy
      in era * 146097 + doe - 719468)"

definition civil_from_days :: "int \<Rightarrow> int \<times> int \<times> int" where
  "civil_from_days z =
     (let z1 = z + 719468;
          era = z1 div 146097;
          doe = z1 - era * 146097;
          yoe = (doe - doe div 1460 + doe div 36524 - doe div 146096) div 365;
          doy = doe - (365 * yoe + yoe div 4 - yoe div 100);
          mp = (5 * doy + 2) div 153;
          d = doy - (153 * mp + 2) div 5 + 1;
          m = (if mp < 10 then mp + 3 else mp - 9);
          y = yoe + era * 400
      in (if m \<le> 2 then y + 1 else y, m, d))"

text \<open>
  \<^verbatim>\<open>new Date(year, monthIndex, day, hours, minutes, seconds)\<close>: a year from 0 to 99 means
  1900 + year; month, day and time components outside their ranges carry over
  (\<^verbatim>\<open>MakeDay\<close>, \<^verbatim>\<open>MakeTime\<close>, \<^verbatim>\<open>MakeDate\<close>); a time value beyond \<open>8.64\<cdot>10\<^sup>1\<^sup>5\<close> is
  the invalid date (\<open>None\<close>).
\<close>

definition MakeDay :: "int \<Rightarrow> int \<Rightarrow> int \<Rightarrow> int" where
  "MakeDay year month date =
     days_from_civil (year + month div 12) (month mod 12 + 1) 1 + date - 1"

definition MakeTime :: "int \<Rightarrow> int \<Rightarrow> int \<Rightarrow> int" where
  "MakeTime hours minutes seconds = hours * 3600000 + minutes * 60000 + seconds * 1000"

definition new_Date :: "int \<Rightarrow> int \<Rightarrow> int \<Rightarrow> int \<Rightarrow> int \<Rightarrow> int \<Rightarrow> jsdate option" where
  "new_Date year month date hours minutes seconds =
     (let yr = (if 0 \<le> year \<and> year \<le> 99 then 1900 + year else year);
          tv = MakeDay yr month date * msPerDay + MakeTime hours minutes seconds
      in if \<bar>tv\<bar> \<le> 8640000000000000 then Some tv else None)"

definition getFullYear :: "jsdate \<Rightarrow> int" where
  "getFullYear t = fst (civil_from_days (t div msPerDay))"

definition getMonth :: "jsdate \<Rightarrow> int" where
  "getMonth t = fst (snd (civil_from_days (t div msPerDay))) - 1"

definition getDate :: "jsdate \<Rightarrow> int" where
  "getDate t = snd (snd (civil_from_days (t div msPerDay)))"

definition getHours :: "jsdate \<Rightarrow> int" where
  "getHours t = (t div 3600000) mod 24"

definition getMinutes :: "jsdate \<Rightarrow> int" where
  "getMinutes t = (t div 60000) mod 60"

definition getSeconds :: "jsdate \<Rightarrow> int" where
  "getSeconds t = (t div 1000) mod 60"

subsection \<open>parseDate\<close>

text \<open>
  \<^verbatim>\<open>parseDate(dateStr, timeStr)\<close> on strings. A component that is \<^verbatim>\<open>NaN\<close> is \<open>None\<close>;
  \<^verbatim>\<open>NaN < 100\<close> is false, so a \<^verbatim>\<open>NaN\<close> year stays \<^verbatim>\<open>NaN\<close>, and a \<^verbatim>\<open>Date\<close> built from a
  \<^verbatim>\<open>NaN\<close> is invalid. The groups 1 and 2 of the time pattern are digits.
\<close>

definition adjust_year :: "int \<Rightarrow> int" where
  "adjust_year year = (if year < 100 then year + (if year < 50 then 2000 else 1900) else year)"

definition adjust_hours :: "string option \<Rightarrow> int \<Rightarrow> int" where
  "adjust_hours period hours =
     (case period of
        None \<Rightarrow> hours
      | Some p \<Rightarrow>
          let h1 = (if p = ''PM'' \<and> hours \<noteq> 12 then hours + 12 else hours)
          in if p = ''AM'' \<and> h1 = 12 then 0 else h1)"

text \<open>
  The source's check ``components match (no rollover)'': it returns \<^verbatim>\<open>null\<close> when
  \<^verbatim>\<open>getFullYear() !== year || getMonth() !== month - 1 || getDate() !== day\<close>, that is,
  unless the three components match.
\<close>

definition components_match :: "jsdate \<Rightarrow> int \<Rightarrow> int \<Rightarrow> int \<Rightarrow> bool" where
  "components_match d year month day \<longleftrightarrow>
     getFullYear d = year \<and> getMonth d = month - 1 \<and> getDate d = day"

definition parseDate :: "string \<Rightarrow> string \<Rightarrow> jsdate option" where
  "parseDate dateStr timeStr =
     (let dateParts = split_where (\<lambda>c. c = CHR ''/'' \<or> c = CHR ''.'') dateStr;
          timeParts = search time_parts_re timeStr
      in case (dateParts, timeParts) of
           (dp # mp # yp # _, Some tp) \<Rightarrow>
             (case (parseInt dp, parseInt mp, parseInt yp,
                    parseInt (grp_text tp 1), parseInt (grp_text tp 2)) of
                (Some day, Some month, Some year0, Some hours0, Some minutes) \<Rightarrow>
                  (let year = adjust_year year0;
                       seconds = (case grp tp 3 of None \<Rightarrow> Some 0 | Some sp \<Rightarrow> parseInt sp);
                       hours = adjust_hours (grp tp 4) hours0
                   in case seconds of
                        None \<Rightarrow> None
                      | Some secs \<Rightarrow>
                          (case new_Date year (month - 1) day hours minutes secs of
                             None \<Rightarrow> None
                           | Some date \<Rightarrow>
                               if components_match date year month day then Some date
                               else None))
              | _ \<Rightarrow> None)
         | _ \<Rightarrow> None)"

subsection \<open>Media\<close>

text \<open>
  The values of \<^verbatim>\<open>types[ext] || 'file'\<close>. The table is an object literal, so the two
  lower-case names every object inherits, \<^verbatim>\<open>constructor\<close> and \<^verbatim>\<open>__proto__\<close>, are found in
  it too and give an inherited member instead of a string.
\<close>

datatype media_type = Image | Video | Audio | Document | Contact | Omitted | File | Inherited string

definition media_types :: "(string \<times> media_type) list" where
  "media_types =
     [(''jpg'', Image), (''jpeg'', Image), (''png'', Image), (''gif'', Image), (''webp'', Image),
      (''mp4'', Video), (''3gp'', Video), (''mov'', Video), (''avi'', Video), (''mkv'', Video),
      (''webm'', Video),
      (''opus'', Audio), (''mp3'', Audio), (''aac'', Audio), (''m4a'', Audio), (''wav'', Audio),
      (''pdf'', Document), (''doc'', Document), (''docx'', Document), (''xls'', Document),
      (''xlsx'', Document), (''ppt'', Document), (''pptx'', Document), (''txt'', Document),
      (''vcf'', Contact)]"

definition getMediaType :: "string \<Rightarrow> media_type" where
  "getMediaType filename =
     (if filename = [] then Omitted
      else let ext = toLowerCase (last_piece CHR ''.'' filename) in
        case map_of media_types ext of
          Some t \<Rightarrow> t
        | None \<Rightarrow> if ext = ''constructor'' \<or> ext = ''__proto__'' then Inherited ext else File)"

record media_info =
  mi_hasMedia :: bool
  mi_filename :: "string option"
  mi_type :: "media_type option"
  mi_text :: string

definition extractMediaInfo :: "string \<Rightarrow> media_info" where
  "extractMediaInfo text =
     (case search attachment text of
        Some am \<Rightarrow>
          let filename = trim (grp_text am 1) in
          \<lparr>mi_hasMedia = True, mi_filename = Some filename,
           mi_type = Some (getMediaType filename),
           mi_text = trim (m_before am @ m_after am)\<rparr>
      | None \<Rightarrow>
          (case match_start filenamePattern text of
             Some fm \<Rightarrow>
               if search mediaExtensions_re (grp_text fm 1) \<noteq> None
               then \<lparr>mi_hasMedia = True, mi_filename = Some (grp_text fm 1),
                     mi_type = Some (getMediaType (grp_text fm 1)),
                     mi_text = trim (drop (length (grp_text fm 1)) text)\<rparr>
               else if search mediaOmitted text \<noteq> None
               then \<lparr>mi_hasMedia = True, mi_filename = None, mi_type = Some Omitted, mi_text = text\<rparr>
               else \<lparr>mi_hasMedia = False, mi_filename = None, mi_type = None, mi_text = text\<rparr>
           | None \<Rightarrow>
               if search mediaOmitted text \<noteq> None
               then \<lparr>mi_hasMedia = True, mi_filename = None, mi_type = Some Omitted, mi_text = text\<rparr>
               else \<lparr>mi_hasMedia = False, mi_filename = None, mi_type = None, mi_text = text\<rparr>))"

subsection \<open>parseLine\<close>

record message =
  date :: jsdate
  sender :: string
  msg_text :: string
  isSystem :: bool
  hasMedia :: bool
  mediaType :: "media_type option"
  mediaFilename :: "string option"
  raw :: string

text \<open>\<^verbatim>\<open>'Invalid date format'\<close> and \<^verbatim>\<open>'No matching pattern'\<close>.\<close>

datatype reason = InvalidDateFormat | NoMatchingPattern

text \<open>What \<^verbatim>\<open>parseLine\<close> returns: \<^verbatim>\<open>null\<close>, a failed line, or a message.\<close>

datatype parsed = Blank | Failed nat string reason | Parsed message

definition sender_message :: "string \<Rightarrow> re_match \<Rightarrow> jsdate \<Rightarrow> message" where
  "sender_message line m d =
     (let mediaInfo = extractMediaInfo (grp_text m 4) in
      \<lparr>date = d, sender = trim (grp_text m 3), msg_text = mi_text mediaInfo, isSystem = False,
       hasMedia = mi_hasMedia mediaInfo, mediaType = mi_type mediaInfo,
       mediaFilename = mi_filename mediaInfo, raw = line\<rparr>)"

definition parseLine :: "string \<Rightarrow> nat \<Rightarrow> parsed" where
  "parseLine line0 lineNumber =
     (let line = trim line0 in
      if line = [] then Blank
      else
        case match_start bracket line of
          Some m \<Rightarrow>
            (case parseDate (grp_text m 1) (grp_text m 2) of
               None \<Rightarrow> Failed lineNumber line InvalidDateFormat
             | Some d \<Rightarrow> Parsed (sender_message line m d))
        | None \<Rightarrow>
            (case match_start dash line of
               Some m \<Rightarrow>
                 (case parseDate (grp_text m 1) (grp_text m 2) of
                    None \<Rightarrow> Failed lineNumber line InvalidDateFormat
                  | Some d \<Rightarrow> Parsed (sender_message line m d))
             | None \<Rightarrow>
                 (case match_start systemDash line of
                    Some m \<Rightarrow>
                      if CHR '':'' \<notin> set (grp_text m 3)
                      then (case parseDate (grp_text m 1) (grp_text m 2) of
                              None \<Rightarrow> Failed lineNumber line InvalidDateFormat
                            | Some d \<Rightarrow>
                                Parsed \<lparr>date = d, sender = ''System'', msg_text = trim (grp_text m 3),
                                        isSystem = True, hasMedia = False, mediaType = None,
                                        mediaFilename = None, raw = line\<rparr>)
                      else Failed lineNumber line NoMatchingPattern
                  | None \<Rightarrow> Failed lineNumber line NoMatchingPattern)))"

subsection \<open>parse\<close>

record failed_line =
  fl_lineNumber :: nat
  fl_content :: string
  fl_reason :: reason

record stats =
  totalLines :: nat
  parsedMessages :: nat
  failedLines :: nat
  emptyLines :: nat
  mediaMessages :: nat
  systemMessages :: nat

text \<open>The parser object: its one mutable field is \<^verbatim>\<open>this.failedLines\<close>.\<close>

record parser =
  this_failedLines :: "failed_line list"

record parse_result =
  messages :: "message list"
  res_failedLines :: "failed_line list"
  res_stats :: stats

text \<open>The \<^verbatim>\<open>for\<close> loop of \<^verbatim>\<open>parse\<close> from index \<open>i\<close> on, over the lines still to read.\<close>

fun parse_loop ::
  "nat \<Rightarrow> string list \<Rightarrow> message list \<times> parser \<times> stats \<Rightarrow> message list \<times> parser \<times> stats" where
  "parse_loop i [] acc = acc"
| "parse_loop i (l # ls) (msgs, this, st) =
     (let line = trim l in
      if line = [] then parse_loop (i + 1) ls (msgs, this, st\<lparr>emptyLines := emptyLines st + 1\<rparr>)
      else
        case parseLine line (i + 1) of
          Blank \<Rightarrow> parse_loop (i + 1) ls (msgs, this, st\<lparr>emptyLines := emptyLines st + 1\<rparr>)
        | Failed n fline r \<Rightarrow>
            parse_loop (i + 1) ls
              (msgs,
               this\<lparr>this_failedLines := this_failedLines this
                                          @ [\<lparr>fl_lineNumber = n, fl_content = fline, fl_reason = r\<rparr>]\<rparr>,
               st\<lparr>failedLines := failedLines st + 1\<rparr>)
        | Parsed m \<Rightarrow>
            parse_loop (i + 1) ls
              (msgs @ [m], this,
               st\<lparr>parsedMessages := parsedMessages st + 1,
                  mediaMessages := (if hasMedia m then mediaMessages st + 1 else mediaMessages st),
                  systemMessages := (if isSystem m then systemMessages st + 1 else systemMessages st)\<rparr>))"

definition parse :: "string \<Rightarrow> parser \<Rightarrow> parse_result \<times> parser" where
  "parse content this =
     (let lines = split_on CHR 0x0A content;
          this0 = this\<lparr>this_failedLines := []\<rparr>;
          st0 = \<lparr>totalLines = length lines, parsedMessages = 0, failedLines = 0, emptyLines = 0,
                 mediaMessages = 0, systemMessages = 0\<rparr>
      in case parse_loop 0 lines ([], this0, st0) of
           (msgs, this1, st) \<Rightarrow>
             (\<lparr>messages = msgs, res_failedLines = this_failedLines this1, res_stats = st\<rparr>, this1))"

definition getFailedLines :: "parser \<Rightarrow> failed_line list" where
  "getFailedLines this = this_failedLines this"

definition MessageParser_new :: parser where
  "MessageParser_new = \<lparr>this_failedLines = []\<rparr>"

subsection \<open>Evaluating a match step by step\<close>

text \<open>
  \<open>bind_results xs f\<close> is \<open>concat (map f xs)\<close>: continue every partial match in \<open>xs\<close> with
  \<open>f\<close>. It exists so that a match on a concrete string can be unfolded one result at a time.
\<close>

definition bind_results :: "'a list \<Rightarrow> ('a \<Rightarrow> 'b list) \<Rightarrow> 'b list" where
  "bind_results xs f = concat (map f xs)"

text \<open>
  ``The body contains the phrase, ignoring case'', stated without regular expressions: some
  position of the lower-cased body starts with the lower-cased phrase.
\<close>

fun contains_ci :: "string \<Rightarrow> string \<Rightarrow> bool" where
  "contains_ci [] p = startsWith [] (toLowerCase p)"
| "contains_ci (x # xs) p = (startsWith (toLowerCase (x # xs)) (toLowerCase p) \<or> contains_ci xs p)"

section \<open>Verified properties\<close>

subsection \<open>Unfolding the handler on concrete inputs\<close>

lemmas zip_defs = getMediaURL_def LRUCache_new_def LRUCache_get_def LRUCache_set_def
  map_has_def createObjectURL_def revoke_evicted_def revokeObjectURL_def Let_def

lemmas load_defs = loadZip_def loadZip_entry_def clear_def LRUCache_clear_def ZipHandler_new_def
  LRUCache_new_def isMediaFile_def endsWith_def last_piece_def toLowerCase_def lower_char_def
  mediaExtensions_def browser0_def Let_def

lemma photo_handler_eq:
  "photo_handler =
     (\<lparr>maxCacheSize = 3, urlCache = \<lparr>maxSize = 3, cache = [], accessOrder = []\<rparr>,
       mediaFiles = [(''photo1.jpg'', ''abc''), (''photo2.jpg'', ''def'')],
       chatContent = Some ''Chat'', chatFilename = Some ''chat.txt'', isLoaded = True\<rparr>,
      \<lparr>next_url = 0, trace = []\<rparr>)"
  by (simp add: photo_handler_def photo_archive_def load_defs)

subsection \<open>Lookups of names that are not in the archive\<close>

lemma getMediaURL_absent:
  "\<not> map_has (mediaFiles h) f \<Longrightarrow> getMediaURL f (h, w) = (None, h, w)"
  by (simp add: getMediaURL_def)

lemma preloadMedia_absent:
  "list_all (\<lambda>f. \<not> map_has (mediaFiles h) f) fs \<Longrightarrow>
     preloadMedia fs (h, w) =
       (map (\<lambda>f. \<lparr>pre_filename = f, pre_url = None, cached = False\<rparr>) fs, h, w)"
  by (induction fs) (simp_all add: getMediaURL_absent)

lemma missing_name_absent: "\<not> map_has (mediaFiles (fst photo_handler)) (missing_name i)"
  by (simp add: photo_handler_eq map_has_def missing_name_def)

lemma missing_name_inj: "inj missing_name"
proof (rule injI)
  fix i j assume "missing_name i = missing_name j"
  then have "length (missing_name i) = length (missing_name j)" by simp
  then show "i = j" by (simp add: missing_name_def)
qed

text \<open>
  Claim C2 (what the code does at the failing input). Resolving a name that is not a
  media entry returns \<^verbatim>\<open>null\<close> and leaves the handler and the browser exactly as they
  were: the cache is untouched, but nothing records the request either. The handler has
  no field for missing names and its statistics no missing count, so after the lookup
  the statistics are those from before it.
\<close>

theorem C2_missing_lookup_leaves_no_record:
  "getMediaURL ''missing.jpg'' photo_handler = (None, photo_handler)
   \<and> getCacheStats (fst (snd (getMediaURL ''missing.jpg'' photo_handler)))
       = getCacheStats (fst photo_handler)"
  by (simp add: photo_handler_eq getMediaURL_def map_has_def)

text \<open>
  Claim C3 (what the code does at the failing input). 10,005 lookups of distinct names
  that are not in the loaded archive leave the handler and the browser unchanged, and the
  handler has made no call at all: no warning or alert is emitted, where the claim asks
  for exactly one.
\<close>

theorem C3_no_signal_after_10005_missing_lookups:
  "distinct (map missing_name [0..<10005])
   \<and> length (map missing_name [0..<10005]) = 10005
   \<and> snd (preloadMedia (map missing_name [0..<10005]) photo_handler) = photo_handler
   \<and> trace (snd photo_handler) = []"
proof -
  have d: "distinct (map missing_name [0..<10005])"
    by (simp add: distinct_map inj_on_subset [OF missing_name_inj])
  have a: "list_all (\<lambda>f. \<not> map_has (mediaFiles (fst photo_handler)) f)
             (map missing_name [0..<10005])"
    unfolding list_all_iff using missing_name_absent by auto
  have s: "snd (preloadMedia (map missing_name [0..<10005]) photo_handler) = photo_handler"
    using preloadMedia_absent [OF a, of "snd photo_handler"] by (simp del: map_map)
  have t: "trace (snd photo_handler) = []" by (simp add: photo_handler_eq)
  show ?thesis using d s t by simp
qed

subsection \<open>LRU eviction\<close>

text \<open>
  Claim C5. With capacity 3 and an empty cache, resolving four distinct known names
  \<open>f1\<close>, ..., \<open>f4\<close> in that order creates one URL for each and revokes exactly the one
  created for \<open>f1\<close>, once; the cache then holds \<open>f2\<close>, \<open>f3\<close>, \<open>f4\<close>. Resolving \<open>f1\<close>
  again creates a new URL (the fifth) instead of returning the first, and evicts \<open>f2\<close>.
\<close>

theorem C5_lru_eviction:
  assumes d: "distinct [f1, f2, f3, f4]"
    and k: "list_all (\<lambda>f. f \<noteq> [] \<and> map_has (mediaFiles h) f) [f1, f2, f3, f4]"
    and c: "urlCache h = LRUCache_new 3"
    and r: "preloadMedia [f1, f2, f3, f4] (h, w) = (rs, h', w')"
    and g: "getMediaURL f1 (h', w') = (u, h'', w'')"
  shows "map pre_url rs = [Some (next_url w), Some (next_url w + 1), Some (next_url w + 2),
                           Some (next_url w + 3)]
    \<and> trace w' = trace w @ [CreateObjectURL (next_url w), CreateObjectURL (next_url w + 1),
            CreateObjectURL (next_url w + 2), CreateObjectURL (next_url w + 3),
            RevokeObjectURL (Some (next_url w))]
    \<and> cache (urlCache h') = [(f2, next_url w + 1), (f3, next_url w + 2), (f4, next_url w + 3)]
    \<and> accessOrder (urlCache h') = [f2, f3, f4]
    \<and> u = Some (next_url w + 4)
    \<and> trace w'' = trace w' @ [CreateObjectURL (next_url w + 4), RevokeObjectURL (Some (next_url w + 1))]"
  using assms
  by (auto simp add: zip_defs split: prod.splits option.splits if_splits)

theorem C5_lru_eviction_witness:
  "\<exists>rs h' w' h'' w''.
     preloadMedia [''file1.jpg'', ''file2.jpg'', ''file3.jpg'', ''file4.jpg''] (four_files, browser0) = (rs, h', w')
     \<and> getMediaURL ''file1.jpg'' (h', w') = (Some 4, h'', w'')
     \<and> map pre_url rs = [Some 0, Some 1, Some 2, Some 3]
     \<and> trace w' = [CreateObjectURL 0, CreateObjectURL 1, CreateObjectURL 2, CreateObjectURL 3,
                    RevokeObjectURL (Some 0)]
     \<and> accessOrder (urlCache h') = [''file2.jpg'', ''file3.jpg'', ''file4.jpg'']
     \<and> trace w'' = trace w' @ [CreateObjectURL 4, RevokeObjectURL (Some 1)]"
proof -
  have d: "distinct [''file1.jpg'', ''file2.jpg'', ''file3.jpg'', ''file4.jpg'']" by simp
  have k: "list_all (\<lambda>f. f \<noteq> [] \<and> map_has (mediaFiles four_files) f)
             [''file1.jpg'', ''file2.jpg'', ''file3.jpg'', ''file4.jpg'']"
    by (simp add: four_files_def map_has_def)
  have c: "urlCache (four_files :: string ziphandler) = LRUCache_new 3"
    by (simp add: four_files_def ZipHandler_new_def)
  obtain rs h' w' where
    r: "preloadMedia [''file1.jpg'', ''file2.jpg'', ''file3.jpg'', ''file4.jpg''] (four_files, browser0) = (rs, h', w')"
    by (metis prod_cases3)
  obtain u h'' w'' where g: "getMediaURL ''file1.jpg'' (h', w') = (u, h'', w'')"
    by (metis prod_cases3)
  from C5_lru_eviction [OF d k c r g] r g show ?thesis
    by (simp add: browser0_def)
qed

subsection \<open>Archive extraction\<close>

lemma startsWith_iff: "startsWith s p \<longleftrightarrow> (\<exists>r. s = p @ r)"
  by (induction s p rule: startsWith.induct) auto

lemma endsWith_iff: "endsWith s suf \<longleftrightarrow> (\<exists>g. s = g @ suf)"
proof -
  have "endsWith s suf \<longleftrightarrow> (\<exists>r. rev s = rev suf @ r)"
    by (simp add: endsWith_def startsWith_iff)
  also have "\<dots> \<longleftrightarrow> (\<exists>g. s = g @ suf)"
  proof
    assume "\<exists>r. rev s = rev suf @ r"
    then obtain r where "rev s = rev suf @ r" ..
    then have "s = rev r @ suf" by (metis rev_append rev_rev_ident)
    then show "\<exists>g. s = g @ suf" ..
  next
    assume "\<exists>g. s = g @ suf"
    then obtain g where "s = g @ suf" ..
    then have "rev s = rev suf @ rev g" by simp
    then show "\<exists>r. rev s = rev suf @ r" ..
  qed
  finally show ?thesis .
qed

lemma split_on_not_Nil: "split_on c s \<noteq> []"
  by (induction s) (auto split: list.splits)

lemma split_on_no_sep: "c \<notin> set ys \<Longrightarrow> split_on c ys = [ys]"
  by (induction ys) auto

lemma split_on_append: "split_on c (xs @ c # ys) = split_on c xs @ split_on c ys"
proof (induction xs)
  case Nil
  then show ?case by simp
next
  case (Cons x xs)
  obtain y ys' where "split_on c xs = y # ys'"
    using split_on_not_Nil [of c xs] by (cases "split_on c xs") auto
  with Cons show ?case by simp
qed

lemma last_split_on_append: "last (split_on c (xs @ c # ys)) = last (split_on c ys)"
  by (simp add: split_on_append split_on_not_Nil)

lemma txt_isMediaFile: "endsWith f ''.txt'' \<Longrightarrow> isMediaFile f"
proof -
  assume "endsWith f ''.txt''"
  then obtain g where f: "f = g @ CHR ''.'' # ''txt''" by (auto simp: endsWith_iff)
  have "last_piece CHR ''.'' f = ''txt''"
    unfolding f last_piece_def last_split_on_append by simp
  then show ?thesis
    by (simp add: isMediaFile_def f toLowerCase_def lower_char_def mediaExtensions_def)
qed

lemma chat_fixed:
  "chatContent h = Some c \<Longrightarrow> c \<noteq> [] \<Longrightarrow>
     chatContent (foldl (loadZip_entry dec) h es) = Some c
     \<and> chatFilename (foldl (loadZip_entry dec) h es) = chatFilename h"
  by (induction es arbitrary: h) (simp_all add: loadZip_entry_def Let_def)

lemma chat_untouched:
  "list_all (\<lambda>e. \<not> endsWith (last_piece CHR ''/'' (fst e)) ''.txt'') es \<Longrightarrow>
     chatContent (foldl (loadZip_entry dec) h es) = chatContent h
     \<and> chatFilename (foldl (loadZip_entry dec) h es) = chatFilename h"
  by (induction es arbitrary: h) (simp_all add: loadZip_entry_def Let_def)

lemma map_has_update: "map_has (AList.update k v m) k' \<longleftrightarrow> k' = k \<or> map_has m k'"
  by (auto simp: map_has_def update_conv')

lemma media_kept:
  "map_has (mediaFiles h) f \<Longrightarrow> map_has (mediaFiles (foldl (loadZip_entry dec) h es)) f"
  by (induction es arbitrary: h) (simp_all add: loadZip_entry_def Let_def map_has_update)

lemma later_txt_stored:
  "chatContent h = Some c \<Longrightarrow> c \<noteq> [] \<Longrightarrow> e \<in> set es \<Longrightarrow> endsWith (last_piece CHR ''/'' (fst e)) ''.txt'' \<Longrightarrow>
     map_has (mediaFiles (foldl (loadZip_entry dec) h es)) (last_piece CHR ''/'' (fst e))"
proof (induction es arbitrary: h)
  case Nil
  then show ?case by simp
next
  case (Cons x es)
  let ?h1 = "loadZip_entry dec h x"
  have c1: "chatContent ?h1 = Some c"
    using Cons.prems(1,2) by (simp add: loadZip_entry_def Let_def)
  show ?case
  proof (cases "e = x")
    case True
    have "map_has (mediaFiles ?h1) (last_piece CHR ''/'' (fst e))"
      using Cons.prems(1,2,4) True
      by (simp add: loadZip_entry_def Let_def txt_isMediaFile map_has_update)
    then show ?thesis by (simp add: media_kept)
  next
    case False
    then have "e \<in> set es" using Cons.prems(3) by simp
    from Cons.IH [OF c1 Cons.prems(2) this Cons.prems(4)] show ?thesis by simp
  qed
qed

lemma media_keys:
  "fst ` set (mediaFiles (foldl (loadZip_entry dec) h es))
     \<subseteq> fst ` set (mediaFiles h) \<union> (\<lambda>e. last_piece CHR ''/'' (fst e)) ` set es"
proof (induction es arbitrary: h)
  case Nil
  then show ?case by simp
next
  case (Cons x es)
  have "fst ` set (mediaFiles (loadZip_entry dec h x)) \<subseteq> fst ` set (mediaFiles h) \<union> {last_piece CHR ''/'' (fst x)}"
    by (auto simp: loadZip_entry_def Let_def dom_update dom_map_of_conv_image_fst [symmetric] update_conv'
          split: if_splits)
  with Cons.IH [of "loadZip_entry dec h x"] show ?case by auto
qed

text \<open>
  Claim C9, as the code has it. Only the last path segment of an entry is its file name.
  The first entry whose name ends in \<^verbatim>\<open>.txt\<close>, when its decoded text is not empty,
  becomes the transcript, and no later entry replaces it. A later \<^verbatim>\<open>.txt\<close> entry is not
  dropped: \<^verbatim>\<open>txt\<close> is one of the media extensions, so it is stored among the media
  entries under its last path segment. Every media entry is named by the last path
  segment of some entry.
\<close>

theorem C9_first_transcript_later_ones_kept_as_media:
  assumes before: "list_all (\<lambda>e. \<not> endsWith (last_piece CHR ''/'' (fst e)) ''.txt'') pre"
    and first: "endsWith (last_piece CHR ''/'' p) ''.txt''"
    and ne: "decode d \<noteq> []"
    and run: "loadZip decode (Unzipped (pre @ (p, d) # post)) hw = (r, h', w')"
  shows "chatFilename h' = Some (last_piece CHR ''/'' p)
    \<and> chatContent h' = Some (decode d)
    \<and> (\<forall>e \<in> set post. endsWith (last_piece CHR ''/'' (fst e)) ''.txt''
          \<longrightarrow> map_has (mediaFiles h') (last_piece CHR ''/'' (fst e)))
    \<and> fst ` set (mediaFiles h') \<subseteq> (\<lambda>e. last_piece CHR ''/'' (fst e)) ` set (pre @ (p, d) # post)"
proof -
  obtain h0 w1 where cl: "clear hw = (h0, w1)" by (cases "clear hw")
  have h0: "chatContent h0 = None" "chatFilename h0 = None" "mediaFiles h0 = []"
    using cl by (auto simp: clear_def Let_def split: prod.splits)
  let ?f = "loadZip_entry decode"
  let ?a = "foldl ?f h0 pre"
  let ?b = "?f ?a (p, d)"
  let ?c = "foldl ?f ?b post"
  have a: "chatContent ?a = None" using chat_untouched [OF before, of decode h0] h0 by simp
  have b: "chatContent ?b = Some (decode d)" "chatFilename ?b = Some (last_piece CHR ''/'' p)"
    using a first by (simp_all add: loadZip_entry_def Let_def)
  have h': "h' = ?c\<lparr>isLoaded := True\<rparr>"
    using run cl by (simp add: loadZip_def Let_def)
  have 1: "chatContent ?c = Some (decode d)" "chatFilename ?c = Some (last_piece CHR ''/'' p)"
    using chat_fixed [OF b(1) ne, of decode post] b(2) by simp_all
  have 2: "\<forall>e \<in> set post. endsWith (last_piece CHR ''/'' (fst e)) ''.txt''
          \<longrightarrow> map_has (mediaFiles ?c) (last_piece CHR ''/'' (fst e))"
    using later_txt_stored [OF b(1) ne] by blast
  have "foldl ?f h0 (pre @ (p, d) # post) = ?c" by simp
  then have 3: "fst ` set (mediaFiles ?c) \<subseteq> (\<lambda>e. last_piece CHR ''/'' (fst e)) ` set (pre @ (p, d) # post)"
    using media_keys [of decode h0 "pre @ (p, d) # post"] h0(3) by simp
  show ?thesis using 1 2 3 unfolding h' by simp
qed


theorem C9_first_transcript_later_ones_kept_as_media_witness:
  "list_all (\<lambda>e. \<not> endsWith (last_piece CHR ''/'' (fst e)) ''.txt'') [(''WhatsApp/IMG_1.jpg'', ''x'')]
   \<and> endsWith (last_piece CHR ''/'' ''WhatsApp/chat.txt'') ''.txt''
   \<and> id ''Chat'' \<noteq> []
   \<and> (\<exists>r h' w'.
        loadZip id (Unzipped ([(''WhatsApp/IMG_1.jpg'', ''x'')] @ (''WhatsApp/chat.txt'', ''Chat'')
                      # [(''WhatsApp/old/chat2.txt'', ''Older chat'')]))
          (ZipHandler_new None, browser0) = (r, h', w')
        \<and> chatFilename h' = Some ''chat.txt'' \<and> chatContent h' = Some ''Chat''
        \<and> map_has (mediaFiles h') ''chat2.txt'')"
proof -
  have a: "list_all (\<lambda>e. \<not> endsWith (last_piece CHR ''/'' (fst e)) ''.txt'') [(''WhatsApp/IMG_1.jpg'', ''x'')]"
    by (simp add: endsWith_def last_piece_def)
  have b: "endsWith (last_piece CHR ''/'' ''WhatsApp/chat.txt'') ''.txt''"
    by (simp add: endsWith_def last_piece_def)
  have c: "id ''Chat'' \<noteq> []" by simp
  have lp: "last_piece CHR ''/'' ''WhatsApp/chat.txt'' = ''chat.txt''"
    "last_piece CHR ''/'' ''WhatsApp/old/chat2.txt'' = ''chat2.txt''"
    by (simp_all add: last_piece_def)
  have e: "endsWith ''chat2.txt'' ''.txt''" by (simp add: endsWith_def)
  obtain r h' w' where
    run: "loadZip id (Unzipped ([(''WhatsApp/IMG_1.jpg'', ''x'')] @ (''WhatsApp/chat.txt'', ''Chat'')
                      # [(''WhatsApp/old/chat2.txt'', ''Older chat'')]))
          (ZipHandler_new None, browser0) = (r, h', w')"
    by (metis prod_cases3)
  from C9_first_transcript_later_ones_kept_as_media [OF a b c run] lp e
  have "chatFilename h' = Some ''chat.txt'' \<and> chatContent h' = Some ''Chat''
        \<and> map_has (mediaFiles h') ''chat2.txt''"
    by simp
  with a b c run show ?thesis by blast
qed

text \<open>
  Claim C9 as stated fails: an archive with two transcript-like files keeps the second one
  as a media entry.
\<close>

theorem C9_counterexample:
  "map fst (mediaFiles (fst (snd (loadZip id
       (Unzipped [(''WhatsApp/chat.txt'', ''Chat''), (''WhatsApp/old/chat2.txt'', ''Older chat'')])
       (ZipHandler_new None, browser0))))) = [''chat2.txt'']"
  by (simp add: load_defs)

subsection \<open>The bound on live URLs\<close>

lemma live_urls_snoc: "live_urls (es @ [e]) = live_step (live_urls es) e"
  by (simp add: live_urls_def)

lemma peak_from_snoc:
  "peak_from l (es @ [e]) = max (peak_from l es) (length (live_step (foldl live_step l es) e))"
  by (induction es arbitrary: l) (simp_all add: max.assoc)

lemma peak_live_snoc:
  "peak_live (es @ [e]) = max (peak_live es) (length (live_step (live_urls es) e))"
  by (simp add: peak_live_def live_urls_def peak_from_snoc)

lemma peak_from_ge: "length (foldl live_step l es) \<le> peak_from l es"
  by (induction es arbitrary: l) (simp_all add: max.coboundedI2)

lemma update_fresh: "k \<notin> fst ` set al \<Longrightarrow> AList.update k v al = al @ [(k, v)]"
  by (induction al) auto

lemma delete_split:
  "distinct (map fst al) \<Longrightarrow> map_of al k = Some v \<Longrightarrow>
     \<exists>xs ys. al = xs @ (k, v) # ys \<and> AList.delete k al = xs @ ys"
proof (induction al)
  case Nil
  then show ?case by simp
next
  case (Cons a al)
  show ?case
  proof (cases "fst a = k")
    case True
    then have "a = (k, v)" using Cons.prems(2) by (cases a) simp
    moreover have "k \<notin> fst ` set al" using Cons.prems(1) True by auto
    ultimately have "a # al = [] @ (k, v) # al \<and> AList.delete k (a # al) = [] @ al"
      by (simp add: delete_id)
    then show ?thesis by blast
  next
    case False
    then have "map_of al k = Some v" using Cons.prems(2) by (cases a) (simp split: if_splits)
    with Cons obtain xs ys where "al = xs @ (k, v) # ys" "AList.delete k al = xs @ ys" by auto
    then have "a # al = (a # xs) @ (k, v) # ys \<and> AList.delete k (a # al) = (a # xs) @ ys"
      using False by (cases a) simp
    then show ?thesis by blast
  qed
qed

lemma map_has_iff: "map_has m k \<longleftrightarrow> k \<in> fst ` set m"
  by (simp add: map_has_def map_of_eq_None_iff)

lemma lru_ok_length: "lru_ok c l n \<Longrightarrow> length l = length (cache c)"
proof -
  assume a: "lru_ok c l n"
  have d1: "distinct l" and d2: "distinct (map snd (cache c))"
    and s: "set l = set (map snd (cache c))"
    using a unfolding lru_ok_def by simp_all
  have "length l = card (set l)" using d1 by (simp add: distinct_card)
  also have "\<dots> = card (set (map snd (cache c)))" by (simp only: s)
  also have "\<dots> = length (map snd (cache c))" using d2 by (rule distinct_card)
  finally show ?thesis by simp
qed

lemma lru_ok_older: "lru_ok c l n \<Longrightarrow> u \<in> set l \<Longrightarrow> u < n"
  unfolding lru_ok_def list_all_iff by blast

lemma lru_ok_get:
  "lru_ok c l n \<Longrightarrow> lru_ok (snd (LRUCache_get k c)) l n"
  by (auto simp: lru_ok_def LRUCache_get_def map_has_iff)

lemma lru_ok_insert:
  assumes ok: "lru_ok c l n" and k: "\<not> map_has (cache c) k"
    and room: "int (length (cache c)) < maxSize c"
    and c': "cache c' = AList.update k n (cache c)" "accessOrder c' = accessOrder c @ [k]"
      "maxSize c' = maxSize c"
  shows "lru_ok c' (l @ [n]) (Suc n)"
proof -
  have fresh: "k \<notin> fst ` set (cache c)" using k by (simp add: map_has_iff)
  have n: "n \<notin> set l" using lru_ok_older [OF ok, of n] by auto
  have "list_all (\<lambda>u. u < Suc n) l"
    unfolding list_all_iff using lru_ok_older [OF ok] less_SucI by blast
  then show ?thesis
    using ok fresh n room c' by (auto simp: lru_ok_def update_fresh)
qed

lemma lru_ok_evict_insert:
  assumes ok: "lru_ok c l n" and k: "\<not> map_has (cache c) k"
    and ao: "accessOrder c = lru # rest" and v: "map_of (cache c) lru = Some v"
    and c': "cache c' = AList.update k n (AList.delete lru (cache c))"
      "accessOrder c' = rest @ [k]" "maxSize c' = maxSize c"
  shows "lru_ok c' (removeAll v (l @ [n])) (Suc n)"
proof -
  have dk: "distinct (map fst (cache c))" and dv: "distinct (map snd (cache c))"
    and da: "distinct (accessOrder c)" and sa: "set (accessOrder c) = fst ` set (cache c)"
    and dl: "distinct l" and sl: "set l = snd ` set (cache c)"
    and sz: "1 \<le> maxSize c" "int (length (cache c)) \<le> maxSize c"
    using ok unfolding lru_ok_def by simp_all
  obtain xs ys where al: "cache c = xs @ (lru, v) # ys" and del: "AList.delete lru (cache c) = xs @ ys"
    using delete_split [OF dk v] by blast
  have fresh: "k \<notin> fst ` set (cache c)" using k by (simp add: map_has_iff)
  then have fresh': "k \<notin> fst ` set (xs @ ys)" unfolding al by auto
  have cache': "cache c' = xs @ ys @ [(k, n)]"
    using c'(1) del update_fresh [OF fresh'] by simp
  have vl: "v \<in> set l" unfolding sl al by force
  then have vn: "v < n" by (rule lru_ok_older [OF ok])
  have nl: "n \<notin> set l" using lru_ok_older [OF ok, of n] by auto
  have live: "removeAll v (l @ [n]) = removeAll v l @ [n]" using vn by simp
  have 1: "distinct (map fst (cache c'))" using dk fresh unfolding cache' al by auto
  have krest: "k \<notin> set rest" using fresh sa ao by auto
  have 2: "distinct (accessOrder c')" using da krest unfolding c'(2) ao by simp
  have "set rest = fst ` set (cache c) - {lru}" using da sa unfolding ao by auto
  also have "\<dots> = fst ` set (xs @ ys)" using dk unfolding al by auto
  finally have 3: "set (accessOrder c') = fst ` set (cache c')" unfolding c'(2) cache' by auto
  have nv: "n \<notin> snd ` set (cache c)" using nl sl by simp
  have 4: "distinct (map snd (cache c'))" using dv nv unfolding cache' al by auto
  have 5: "distinct (removeAll v (l @ [n]))" unfolding live using dl nl by (simp add: distinct_removeAll)
  have "set l - {v} = snd ` set (xs @ ys)" using dv unfolding sl al by auto
  then have 6: "set (removeAll v (l @ [n])) = snd ` set (cache c')" unfolding live cache' by auto
  have 7: "list_all (\<lambda>u. u < Suc n) (removeAll v (l @ [n]))"
    unfolding live list_all_iff using lru_ok_older [OF ok] by (auto intro: less_SucI)
  have 8: "1 \<le> maxSize c'" "int (length (cache c')) \<le> maxSize c'"
    using sz unfolding c'(3) cache' al by simp_all
  show ?thesis unfolding lru_ok_def using 1 2 3 4 5 6 7 8 by blast
qed

lemma lru_ok_evict_length:
  assumes ok: "lru_ok c l n" and v: "map_of (cache c) lru = Some v"
  shows "length (removeAll v (l @ [n])) = length l"
proof -
  have "v \<in> snd ` set (cache c)" using map_of_SomeD [OF v] by force
  then have vl: "v \<in> set l" using ok unfolding lru_ok_def by simp
  then have vn: "v \<noteq> n" using lru_ok_older [OF ok, of v] by auto
  have dl: "distinct l" using ok unfolding lru_ok_def by simp
  have "length (removeAll v l) = length l - 1"
    using dl vl by (simp add: distinct_remove1_removeAll [symmetric] length_remove1)
  moreover have "length l > 0" using vl by (cases l) auto
  ultimately show ?thesis using vn by simp
qed

lemma getMediaURL_inv:
  assumes inv: "cache_inv m (h, w)"
  shows "cache_inv m (snd (getMediaURL f (h, w)))"
proof -
  let ?c = "urlCache h" and ?l = "live_urls (trace w)" and ?n = "next_url w"
  have ok: "lru_ok ?c ?l ?n" and pk: "int (peak_live (trace w)) \<le> maxSize ?c + 1"
    and m: "maxSize ?c = m"
    using inv by (simp_all add: cache_inv_def)
  have len: "length ?l = length (cache ?c)" by (rule lru_ok_length [OF ok])
  have sz: "1 \<le> maxSize ?c" "int (length (cache ?c)) \<le> maxSize ?c"
    using ok unfolding lru_ok_def by simp_all
  consider (absent) "f = [] \<or> \<not> map_has (mediaFiles h) f"
    | (hit) "f \<noteq> []" "map_has (mediaFiles h) f" "map_has (cache ?c) f"
    | (room) "f \<noteq> []" "map_has (mediaFiles h) f" "\<not> map_has (cache ?c) f"
        "int (length (cache ?c)) < maxSize ?c"
    | (full) "f \<noteq> []" "map_has (mediaFiles h) f" "\<not> map_has (cache ?c) f"
        "maxSize ?c \<le> int (length (cache ?c))"
    by fastforce
  then show ?thesis
  proof cases
    case absent
    then have "snd (getMediaURL f (h, w)) = (h, w)" by (auto simp: getMediaURL_def)
    then show ?thesis using inv by simp
  next
    case hit
    then obtain u where u: "map_of (cache ?c) f = Some u" by (auto simp: map_has_def)
    have "snd (getMediaURL f (h, w)) = (h\<lparr>urlCache := snd (LRUCache_get f ?c)\<rparr>, w)"
      using hit u by (simp add: getMediaURL_def LRUCache_get_def)
    moreover have "maxSize (snd (LRUCache_get f ?c)) = maxSize ?c"
      by (simp add: LRUCache_get_def)
    ultimately show ?thesis
      using lru_ok_get [OF ok, of f] pk m by (simp add: cache_inv_def)
  next
    case room
    let ?c' = "?c\<lparr>cache := AList.update f ?n (cache ?c), accessOrder := accessOrder ?c @ [f]\<rparr>"
    let ?w' = "w\<lparr>next_url := Suc ?n, trace := trace w @ [CreateObjectURL ?n]\<rparr>"
    have res: "snd (getMediaURL f (h, w)) = (h\<lparr>urlCache := ?c'\<rparr>, ?w')"
      using room by (auto simp: zip_defs)
    have "lru_ok ?c' (?l @ [?n]) (Suc ?n)"
      by (rule lru_ok_insert [OF ok room(3) room(4)]) simp_all
    moreover have "int (peak_live (trace ?w')) \<le> maxSize ?c' + 1"
      using pk room(4) len by (simp add: peak_live_snoc)
    ultimately show ?thesis unfolding res using m by (simp add: cache_inv_def live_urls_snoc)
  next
    case full
    have "cache ?c \<noteq> []" using full(4) sz(1) by auto
    then have "set (accessOrder ?c) \<noteq> {}" using ok unfolding lru_ok_def by simp
    then obtain lru rest where ao: "accessOrder ?c = lru # rest" by (cases "accessOrder ?c") auto
    then have "lru \<in> fst ` set (cache ?c)" using ok unfolding lru_ok_def by auto
    then obtain v where v: "map_of (cache ?c) lru = Some v"
      by (metis map_of_eq_None_iff not_Some_eq)
    let ?c' = "?c\<lparr>cache := AList.update f ?n (AList.delete lru (cache ?c)), accessOrder := rest @ [f]\<rparr>"
    let ?w' = "w\<lparr>next_url := Suc ?n,
                 trace := trace w @ [CreateObjectURL ?n, RevokeObjectURL (Some v)]\<rparr>"
    have res: "snd (getMediaURL f (h, w)) = (h\<lparr>urlCache := ?c'\<rparr>, ?w')"
      using full ao v by (auto simp: zip_defs)
    have tr: "trace w @ [CreateObjectURL ?n, RevokeObjectURL (Some v)]
                = (trace w @ [CreateObjectURL ?n]) @ [RevokeObjectURL (Some v)]" by simp
    have live: "live_urls (trace ?w') = removeAll v (?l @ [?n])"
      by (simp add: tr live_urls_snoc del: append_assoc append.simps)
    have "lru_ok ?c' (removeAll v (?l @ [?n])) (Suc ?n)"
      by (rule lru_ok_evict_insert [OF ok full(3) ao v]) simp_all
    moreover have "int (peak_live (trace ?w')) \<le> maxSize ?c' + 1"
      using pk sz(2) len lru_ok_evict_length [OF ok v]
      by (simp add: tr peak_live_snoc live_urls_snoc del: append_assoc append.simps)
    ultimately show ?thesis unfolding res cache_inv_def using live m by simp
  qed
qed


lemma preloadMedia_inv: "cache_inv m hw \<Longrightarrow> cache_inv m (snd (preloadMedia fs hw))"
proof (induction fs arbitrary: hw)
  case Nil
  then show ?case by simp
next
  case (Cons f fs)
  obtain h w where hw: "hw = (h, w)" by (cases hw)
  have "cache_inv m (snd (getMediaURL f hw))"
    using Cons.prems getMediaURL_inv unfolding hw by blast
  from Cons.IH [OF this] show ?case by (auto split: prod.splits)
qed

lemma lru_ok_remove:
  assumes ok: "lru_ok c l n" and v: "map_of (cache c) k = Some v"
    and c': "cache c' = AList.delete k (cache c)"
      "accessOrder c' = filter (\<lambda>x. x \<noteq> k) (accessOrder c)" "maxSize c' = maxSize c"
  shows "lru_ok c' (removeAll v l) n"
proof -
  have dk: "distinct (map fst (cache c))" and dv: "distinct (map snd (cache c))"
    and da: "distinct (accessOrder c)" and sa: "set (accessOrder c) = fst ` set (cache c)"
    and dl: "distinct l" and sl: "set l = snd ` set (cache c)"
    and sz: "1 \<le> maxSize c" "int (length (cache c)) \<le> maxSize c"
    using ok unfolding lru_ok_def by simp_all
  obtain xs ys where al: "cache c = xs @ (k, v) # ys" and del: "AList.delete k (cache c) = xs @ ys"
    using delete_split [OF dk v] by blast
  have cache': "cache c' = xs @ ys" using c'(1) del by simp
  have 1: "distinct (map fst (cache c'))" using dk unfolding cache' al by auto
  have 2: "distinct (accessOrder c')" using da unfolding c'(2) by simp
  have "set (accessOrder c') = fst ` set (cache c) - {k}" using sa unfolding c'(2) by auto
  also have "\<dots> = fst ` set (xs @ ys)" using dk unfolding al by auto
  finally have 3: "set (accessOrder c') = fst ` set (cache c')" unfolding cache' .
  have 4: "distinct (map snd (cache c'))" using dv unfolding cache' al by auto
  have 5: "distinct (removeAll v l)" using dl by (simp add: distinct_removeAll)
  have "set l - {v} = snd ` set (xs @ ys)" using dv unfolding sl al by auto
  then have 6: "set (removeAll v l) = snd ` set (cache c')" unfolding cache' by auto
  have 7: "list_all (\<lambda>u. u < n) (removeAll v l)"
    unfolding list_all_iff using lru_ok_older [OF ok] by auto
  have 8: "1 \<le> maxSize c'" "int (length (cache c')) \<le> maxSize c'"
    using sz unfolding c'(3) cache' al by simp_all
  show ?thesis unfolding lru_ok_def using 1 2 3 4 5 6 7 8 by blast
qed

lemma length_removeAll_le: "length (removeAll v l) \<le> length l"
  by (induction l) (auto intro: le_SucI)

lemma evictFromCache_inv:
  assumes inv: "cache_inv m (h, w)"
  shows "cache_inv m (evictFromCache f (h, w))"
proof -
  let ?c = "urlCache h" and ?l = "live_urls (trace w)" and ?n = "next_url w"
  have ok: "lru_ok ?c ?l ?n" and pk: "int (peak_live (trace w)) \<le> maxSize ?c + 1"
    and m: "maxSize ?c = m"
    using inv by (simp_all add: cache_inv_def)
  have len: "length ?l = length (cache ?c)" by (rule lru_ok_length [OF ok])
  have sz: "int (length (cache ?c)) \<le> maxSize ?c" using ok unfolding lru_ok_def by simp
  show ?thesis
  proof (cases "map_of (cache ?c) f")
    case None
    then have "evictFromCache f (h, w) = (h, w)"
      by (simp add: evictFromCache_def LRUCache_get_def map_has_def)
    then show ?thesis using inv by simp
  next
    case (Some v)
    let ?c' = "?c\<lparr>accessOrder := filter (\<lambda>k. k \<noteq> f) (accessOrder ?c),
                    cache := AList.delete f (cache ?c)\<rparr>"
    let ?w' = "w\<lparr>trace := trace w @ [RevokeObjectURL (Some v)]\<rparr>"
    have res: "evictFromCache f (h, w) = (h\<lparr>urlCache := ?c'\<rparr>, ?w')"
      using Some by (simp add: evictFromCache_def LRUCache_get_def map_has_def revokeObjectURL_def)
    have "lru_ok ?c' (removeAll v ?l) ?n"
      by (rule lru_ok_remove [OF ok Some]) simp_all
    moreover have "int (peak_live (trace ?w')) \<le> maxSize ?c' + 1"
      using pk sz len length_removeAll_le [of v ?l] by (simp add: peak_live_snoc)
    ultimately show ?thesis unfolding res cache_inv_def using m by (simp add: live_urls_snoc)
  qed
qed

lemma revoke_all_trace:
  "foldl (\<lambda>w' (k, v). revoke_evicted (Some k) (Some v) w') w kvs
     = w\<lparr>trace := trace w @ map (\<lambda>kv. RevokeObjectURL (Some (snd kv))) kvs\<rparr>"
  by (induction kvs arbitrary: w) (auto simp: revoke_evicted_def revokeObjectURL_def)

lemma live_urls_append: "live_urls (es @ fs) = foldl live_step (live_urls es) fs"
  by (simp add: live_urls_def)

lemma peak_from_append:
  "peak_from l (es @ fs) = max (peak_from l es) (peak_from (foldl live_step l es) fs)"
proof (induction es arbitrary: l)
  case Nil
  have "length l \<le> peak_from l fs" by (cases fs) simp_all
  then show ?case by simp
next
  case (Cons e es)
  then show ?case by (simp add: max.assoc)
qed

lemma revokes_set:
  "set (foldl live_step l (map (\<lambda>kv. RevokeObjectURL (Some (snd kv))) kvs)) = set l - snd ` set kvs"
  by (induction kvs arbitrary: l) auto

lemma revokes_peak:
  "peak_from l (map (\<lambda>kv. RevokeObjectURL (Some (snd kv))) kvs) = length l"
proof (induction kvs arbitrary: l)
  case Nil
  then show ?case by simp
next
  case (Cons kv kvs)
  then show ?case using length_removeAll_le [of "snd kv" l] by simp
qed

lemma lru_ok_empty: "1 \<le> maxSize c \<Longrightarrow> cache c = [] \<Longrightarrow> accessOrder c = [] \<Longrightarrow> lru_ok c [] n"
  by (simp add: lru_ok_def)

lemma clear_inv:
  assumes inv: "cache_inv m (h, w)"
  shows "cache_inv m (clear (h, w))"
proof -
  let ?c = "urlCache h" and ?l = "live_urls (trace w)"
  let ?R = "map (\<lambda>kv. RevokeObjectURL (Some (snd kv))) (cache ?c)"
  have ok: "lru_ok ?c ?l (next_url w)" and pk: "int (peak_live (trace w)) \<le> maxSize ?c + 1"
    and m: "maxSize ?c = m"
    using inv by (simp_all add: cache_inv_def)
  have sl: "set ?l = snd ` set (cache ?c)" and sz: "1 \<le> maxSize ?c"
    using ok unfolding lru_ok_def by simp_all
  let ?c' = "?c\<lparr>cache := [], accessOrder := []\<rparr>"
  let ?w' = "w\<lparr>trace := trace w @ ?R\<rparr>"
  have res: "clear (h, w) = (h\<lparr>urlCache := ?c', mediaFiles := [], chatContent := None,
                                chatFilename := None, isLoaded := False\<rparr>, ?w')"
    by (simp add: clear_def LRUCache_clear_def revoke_all_trace Let_def)
  have "set (live_urls (trace ?w')) = {}"
    by (simp add: live_urls_append revokes_set sl)
  then have live: "live_urls (trace ?w') = []" by simp
  have "peak_live (trace ?w') = max (peak_live (trace w)) (length ?l)"
    by (simp add: peak_live_def peak_from_append revokes_peak live_urls_def)
  moreover have "length ?l \<le> peak_live (trace w)"
    unfolding peak_live_def live_urls_def by (rule peak_from_ge)
  ultimately have "int (peak_live (trace ?w')) \<le> maxSize ?c + 1" using pk by simp
  moreover have "lru_ok ?c' [] (next_url w)" using sz by (simp add: lru_ok_empty)
  ultimately show ?thesis unfolding res cache_inv_def using m live by simp
qed

lemma loadZip_entries_urlCache: "urlCache (foldl (loadZip_entry dec) h es) = urlCache h"
  by (induction es arbitrary: h) (simp_all add: loadZip_entry_def Let_def)

lemma loadZip_inv:
  assumes inv: "cache_inv m (h, w)"
  shows "cache_inv m (snd (loadZip dec zf (h, w)))"
proof (cases zf)
  case NotABlob
  then show ?thesis using inv by (simp add: loadZip_def)
next
  case Unreadable
  then show ?thesis using inv by (simp add: loadZip_def)
next
  case (Unzipped es)
  obtain h0 w1 where cl: "clear (h, w) = (h0, w1)" by (cases "clear (h, w)")
  have "cache_inv m (h0, w1)" using clear_inv [OF inv] cl by simp
  moreover have "snd (loadZip dec zf (h, w)) = ((foldl (loadZip_entry dec) h0 es)\<lparr>isLoaded := True\<rparr>, w1)"
    using Unzipped cl by (simp add: loadZip_def Let_def)
  ultimately show ?thesis by (simp add: cache_inv_def loadZip_entries_urlCache)
qed

lemma exec_inv: "cache_inv m hw \<Longrightarrow> cache_inv m (exec dec hw op)"
  by (cases hw; cases op)
     (simp_all add: loadZip_inv getMediaURL_inv preloadMedia_inv evictFromCache_inv clear_inv)

lemma run_inv: "cache_inv m hw \<Longrightarrow> cache_inv m (run dec ops hw)"
  unfolding run_def by (induction ops arbitrary: hw) (simp_all add: exec_inv)

lemma new_inv: "0 < n \<Longrightarrow> cache_inv n (ZipHandler_new (Some n), browser0)"
  by (simp add: cache_inv_def ZipHandler_new_def LRUCache_new_def browser0_def lru_ok_def
      live_urls_def peak_live_def)

text \<open>
  Claim C4, as the code has it. Start from a new handler with a positive cache size \<open>n\<close>
  and run any operations (load, resolve, preload, evict, clear). Whenever an operation has
  returned, at most \<open>n\<close> URLs are live. Inside an operation up to \<open>n + 1\<close> are: a resolve
  that misses on a full cache creates the new URL first and only then evicts the
  least-recently-used entry and revokes its URL.
\<close>

theorem C4_live_handles_bounded:
  assumes "0 < n" and "run decode ops (ZipHandler_new (Some n), browser0) = (h, w)"
  shows "int (length (live_urls (trace w))) \<le> n \<and> int (peak_live (trace w)) \<le> n + 1"
proof -
  have inv: "cache_inv n (h, w)" using run_inv [OF new_inv [OF assms(1)], of decode ops] assms(2) by simp
  then have ok: "lru_ok (urlCache h) (live_urls (trace w)) (next_url w)"
    and m: "maxSize (urlCache h) = n" and pk: "int (peak_live (trace w)) \<le> n + 1"
    by (simp_all add: cache_inv_def)
  have "int (length (cache (urlCache h))) \<le> n" using ok m unfolding lru_ok_def by simp
  then show ?thesis using lru_ok_length [OF ok] pk by simp
qed


theorem C4_live_handles_bounded_witness:
  "(0::int) < 3
   \<and> (\<exists>h w. run id [LoadZip photo_archive, GetMediaURL ''photo1.jpg'', GetMediaURL ''none.jpg'',
                         PreloadMedia [''photo2.jpg'', ''photo1.jpg''], EvictFromCache ''photo2.jpg'']
              (ZipHandler_new (Some 3), browser0) = (h, w)
            \<and> int (length (live_urls (trace w))) \<le> 3 \<and> int (peak_live (trace w)) \<le> 3 + 1)"
proof -
  have p: "(0::int) < 3" by simp
  obtain h w where
    r: "run id [LoadZip photo_archive, GetMediaURL ''photo1.jpg'', GetMediaURL ''none.jpg'',
                PreloadMedia [''photo2.jpg'', ''photo1.jpg''], EvictFromCache ''photo2.jpg'']
          (ZipHandler_new (Some 3), browser0) = (h, w)"
    by (metis surj_pair)
  from C4_live_handles_bounded [OF p r] p r show ?thesis by blast
qed

text \<open>
  Claim C4 as stated fails: with cache size 3, while the fourth of four files is being
  resolved, four URLs are live. The fourth URL is created before the first is revoked.
\<close>

theorem C4_counterexample:
  "maxCacheSize four_files = 3
   \<and> trace (snd (snd (preloadMedia [''file1.jpg'', ''file2.jpg'', ''file3.jpg'', ''file4.jpg'']
                         (four_files, browser0))))
       = [CreateObjectURL 0, CreateObjectURL 1, CreateObjectURL 2, CreateObjectURL 3,
          RevokeObjectURL (Some 0)]
   \<and> live_urls [CreateObjectURL 0, CreateObjectURL 1, CreateObjectURL 2, CreateObjectURL 3]
       = [0, 1, 2, 3]
   \<and> peak_live (trace (snd (snd (preloadMedia [''file1.jpg'', ''file2.jpg'', ''file3.jpg'', ''file4.jpg'']
                         (four_files, browser0))))) = 4"
  by (simp add: four_files_def zip_defs ZipHandler_new_def browser0_def peak_live_def live_urls_def)

subsection \<open>The counters of a parse\<close>

lemma dropWhile_rev_hd:
  "dropWhile P (rev (dropWhile P s)) \<noteq> [] \<Longrightarrow>
     \<not> P (hd (rev (dropWhile P (rev (dropWhile P s)))))"
proof -
  let ?u = "dropWhile P s"
  assume ne: "dropWhile P (rev ?u) \<noteq> []"
  then have une: "?u \<noteq> []" by (metis dropWhile.simps(1) rev.simps(1))
  then have hu: "\<not> P (hd ?u)" by (rule hd_dropWhile)
  obtain a where a: "rev ?u = a @ dropWhile P (rev ?u)"
    by (metis takeWhile_dropWhile_id)
  then have "?u = rev (dropWhile P (rev ?u)) @ rev a" by (metis rev_append rev_rev_ident)
  then have "hd ?u = hd (rev (dropWhile P (rev ?u)))" using ne by (metis hd_append2 rev_is_Nil_conv)
  with hu show ?thesis by simp
qed

lemma trim_idem: "trim (trim s) = trim s"
proof (cases "trim s = []")
  case True
  have "trim [] = []" by (simp add: trim_def)
  then show ?thesis by (simp only: True)
next
  case False
  let ?t = "trim s"
  have ne: "dropWhile is_space (rev (dropWhile is_space s)) \<noteq> []"
    using False by (simp add: trim_def)
  have h: "\<not> is_space (hd ?t)" unfolding trim_def by (rule dropWhile_rev_hd [OF ne])
  have l: "\<not> is_space (hd (rev ?t))" unfolding trim_def using ne by (simp add: hd_dropWhile)
  have 1: "dropWhile is_space ?t = ?t" using h False by (cases ?t) auto
  have 2: "dropWhile is_space (rev ?t) = rev ?t" using l False by (cases "rev ?t") auto
  show ?thesis using 1 2 by (simp add: trim_def [of "trim s"])
qed

lemma parseLine_Blank: "parseLine l n = Blank \<longleftrightarrow> trim l = []"
  by (auto simp: parseLine_def Let_def split: option.splits if_splits)

lemma parse_loop_counts:
  assumes "parse_loop i ls (msgs, this, st) = (msgs', this', st')"
    and "length msgs = parsedMessages st"
    and "length (this_failedLines this) = failedLines st"
  shows "parsedMessages st' + failedLines st' + emptyLines st'
           = parsedMessages st + failedLines st + emptyLines st + length ls
       \<and> length msgs' = parsedMessages st'
       \<and> length (this_failedLines this') = failedLines st'
       \<and> emptyLines st' = emptyLines st + length (filter (\<lambda>l. trim l = []) ls)
       \<and> totalLines st' = totalLines st"
  using assms
proof (induction ls arbitrary: i msgs this st)
  case Nil
  then show ?case by simp
next
  case (Cons l ls)
  show ?case
  proof (cases "trim l = []")
    case True
    with Cons.prems have
      "parse_loop (i + 1) ls (msgs, this, st\<lparr>emptyLines := emptyLines st + 1\<rparr>) = (msgs', this', st')"
      by simp
    from Cons.IH [OF this] Cons.prems(2,3) True show ?thesis by simp
  next
    case False
    then have nb: "parseLine (trim l) (i + 1) \<noteq> Blank" by (simp add: parseLine_Blank trim_idem)
    show ?thesis
    proof (cases "parseLine (trim l) (i + 1)")
      case Blank
      with nb show ?thesis by simp
    next
      case (Failed n fline r)
      with Cons.prems False have
        "parse_loop (i + 1) ls
           (msgs, this\<lparr>this_failedLines := this_failedLines this
                                   @ [\<lparr>fl_lineNumber = n, fl_content = fline, fl_reason = r\<rparr>]\<rparr>,
            st\<lparr>failedLines := failedLines st + 1\<rparr>) = (msgs', this', st')"
        by simp
      from Cons.IH [OF this] Cons.prems(2,3) False show ?thesis by simp
    next
      case (Parsed m)
      with Cons.prems False have
        "parse_loop (i + 1) ls
           (msgs @ [m], this,
            st\<lparr>parsedMessages := parsedMessages st + 1,
               mediaMessages := (if hasMedia m then mediaMessages st + 1 else mediaMessages st),
               systemMessages := (if isSystem m then systemMessages st + 1 else systemMessages st)\<rparr>)
         = (msgs', this', st')"
        by simp
      from Cons.IH [OF this] Cons.prems(2,3) False show ?thesis by simp
    qed
  qed
qed

text \<open>
  Claim C1. For every input text and whatever the parser held before, the counters that
  \<^verbatim>\<open>parse\<close> returns satisfy parsedMessages + failedLines + emptyLines = totalLines, where
  totalLines is the number of newline-separated lines of the input; the returned messages
  are as many as parsedMessages and the returned failed lines as many as failedLines; and
  emptyLines counts exactly the lines that are blank after trimming. So every non-blank
  line becomes one message or one failed line, and a blank line neither.
\<close>

theorem C1_parse_counters:
  "parsedMessages (res_stats (fst (parse content this)))
     + failedLines (res_stats (fst (parse content this)))
     + emptyLines (res_stats (fst (parse content this)))
     = totalLines (res_stats (fst (parse content this)))
   \<and> totalLines (res_stats (fst (parse content this))) = length (split_on CHR 0x0A content)
   \<and> length (messages (fst (parse content this))) = parsedMessages (res_stats (fst (parse content this)))
   \<and> length (res_failedLines (fst (parse content this))) = failedLines (res_stats (fst (parse content this)))
   \<and> emptyLines (res_stats (fst (parse content this)))
       = length (filter (\<lambda>l. trim l = []) (split_on CHR 0x0A content))"
proof -
  let ?lines = "split_on CHR 0x0A content"
  let ?st0 = "\<lparr>totalLines = length ?lines, parsedMessages = 0, failedLines = 0, emptyLines = 0,
                mediaMessages = 0, systemMessages = 0\<rparr>"
  obtain msgs this1 st where
    loop: "parse_loop 0 ?lines ([], this\<lparr>this_failedLines := []\<rparr>, ?st0) = (msgs, this1, st)"
    by (metis prod_cases3)
  have res: "fst (parse content this)
               = \<lparr>messages = msgs, res_failedLines = this_failedLines this1, res_stats = st\<rparr>"
    using loop by (simp add: parse_def Let_def)
  from parse_loop_counts [OF loop] show ?thesis unfolding res by simp
qed

text \<open>
  Claim C10. \<^verbatim>\<open>parse\<close> resets \<^verbatim>\<open>this.failedLines\<close> before reading the input, so what it
  returns and the state it leaves depend on the content only, not on what earlier calls
  left in the parser; and \<^verbatim>\<open>getFailedLines()\<close> afterwards returns exactly the failed lines
  of that parse.
\<close>

theorem C10_parse_depends_on_content_only:
  "parse content this1 = parse content this2
   \<and> getFailedLines (snd (parse content this1)) = res_failedLines (fst (parse content this1))"
proof -
  have e: "this1\<lparr>this_failedLines := []\<rparr> = this2\<lparr>this_failedLines := []\<rparr>" by simp
  have "parse content this1 = parse content this2" unfolding parse_def e by (rule refl)
  moreover have "getFailedLines (snd (parse content this1)) = res_failedLines (fst (parse content this1))"
    by (simp add: parse_def getFailedLines_def Let_def split: prod.splits)
  ultimately show ?thesis by simp
qed

subsection \<open>Evaluating the patterns and the date arithmetic\<close>

lemma bind_results_Nil [simp]: "bind_results [] f = []"
  by (simp add: bind_results_def)

lemma bind_results_Cons [simp]: "bind_results (x # xs) f = f x @ bind_results xs f"
  by (simp add: bind_results_def)

lemma bind_results_cong [cong]: "xs = ys \<Longrightarrow> bind_results xs f = bind_results ys f"
  by simp

lemma rmatch_eval:
  "rmatch Eps s c = [(s, c)]"
  "rmatch (Atom p) [] c = []"
  "rmatch (Atom p) (x # xs) c = (if p x then [(xs, c)] else [])"
  "rmatch (Seq a b) s c = bind_results (rmatch a s c) (\<lambda>sc. rmatch b (fst sc) (snd sc))"
  "rmatch (Alt a b) s c = rmatch a s c @ rmatch b s c"
  "rmatch (Star a) s c =
     bind_results (filter (\<lambda>sc. length (fst sc) < length s) (rmatch a s c))
       (\<lambda>sc. rmatch (Star a) (fst sc) (snd sc)) @ [(s, c)]"
  "rmatch (LazyStar a) s c =
     (s, c) # bind_results (filter (\<lambda>sc. length (fst sc) < length s) (rmatch a s c))
       (\<lambda>sc. rmatch (LazyStar a) (fst sc) (snd sc))"
  "rmatch (Grp i a) s c =
     map (\<lambda>sc. (fst sc, (i, take (length s - length (fst sc)) s) # snd sc)) (rmatch a s c)"
  "rmatch Eol s c = (if s = [] then [(s, c)] else [])"
  by (subst rmatch.simps, simp add: bind_results_def)+

lemmas rx_defs = match_at_def match_start_def search_def grp_def grp_text_def
  opt_def plus_def lazy_plus_def lit_def ilit_def istr_def is_digit_def is_space_def is_word_def
  is_dot_def digit_def space_def d12_def d2_def d24_def date_sep_def date_re_def am_pm_def
  time_re_def bracket_def dash_def systemDash_def attachment_def omitted_phrases_def
  mediaOmitted_def time_parts_re_def mediaExtensions_re_def word_dash_def filenamePattern_def
  mediaExtensions_def lower_char_def

lemmas date_defs = parseDate_def parseInt_def digits_value_def digit_value_def adjust_year_def
  adjust_hours_def new_Date_def MakeDay_def MakeTime_def days_from_civil_def civil_from_days_def
  components_match_def getFullYear_def getMonth_def getDate_def getHours_def getMinutes_def getSeconds_def msPerDay_def
  Let_def



subsection \<open>parseDate\<close>

text \<open>
  Claim C6 (what the code does at the failing input). \<^verbatim>\<open>parseDate("1/1/2024", "10:99")\<close>
  does not fail: minutes 99 roll into the hour and the result is the instant
  1 January 2024, 11:39:00. The check after construction compares year, month and day
  only, so a time component out of range is rejected only when it carries into another day,
  as \<^verbatim>\<open>"23:99"\<close> does.
\<close>

theorem C6_minutes_99_accepted:
  "parseDate ''1/1/2024'' ''10:99'' = Some 1704109140000
   \<and> getFullYear 1704109140000 = 2024 \<and> getMonth 1704109140000 = 0 \<and> getDate 1704109140000 = 1
   \<and> getHours 1704109140000 = 11 \<and> getMinutes 1704109140000 = 39
   \<and> getSeconds 1704109140000 = 0
   \<and> parseDate ''1/1/2024'' ''23:99'' = None"
  by (simp add: rmatch_eval rx_defs date_defs cong: let_weak_cong)

subsection \<open>parseLine\<close>

text \<open>
  Claim C7. A non-blank line is tried against the bracketed, the dashed and the system
  pattern in that order, and the first pattern that matches decides the outcome alone:
  when the bracketed pattern matches, or the dashed one where the bracketed does not, the
  line is a message if its date and time parse and an \<open>InvalidDateFormat\<close> failure if they
  do not; it is never tried against a later pattern and never becomes
  \<open>NoMatchingPattern\<close>. Only a line that neither matches is tried as a system line.
\<close>

theorem C7_first_match_wins:
  assumes nonblank: "trim line \<noteq> []"
  shows "(\<forall>m. match_start bracket (trim line) = Some m \<longrightarrow>
            parseLine line n =
              (case parseDate (grp_text m 1) (grp_text m 2) of
                 None \<Rightarrow> Failed n (trim line) InvalidDateFormat
               | Some d \<Rightarrow> Parsed (sender_message (trim line) m d)))
       \<and> (\<forall>m. match_start bracket (trim line) = None \<longrightarrow>
              match_start dash (trim line) = Some m \<longrightarrow>
            parseLine line n =
              (case parseDate (grp_text m 1) (grp_text m 2) of
                 None \<Rightarrow> Failed n (trim line) InvalidDateFormat
               | Some d \<Rightarrow> Parsed (sender_message (trim line) m d)))
       \<and> (\<forall>m. match_start bracket (trim line) = None \<longrightarrow>
              match_start dash (trim line) = None \<longrightarrow>
              match_start systemDash (trim line) = Some m \<longrightarrow>
            parseLine line n =
              (if CHR '':'' \<in> set (grp_text m 3) then Failed n (trim line) NoMatchingPattern
               else case parseDate (grp_text m 1) (grp_text m 2) of
                      None \<Rightarrow> Failed n (trim line) InvalidDateFormat
                    | Some d \<Rightarrow>
                        Parsed \<lparr>date = d, sender = ''System'', msg_text = trim (grp_text m 3),
                                isSystem = True, hasMedia = False, mediaType = None,
                                mediaFilename = None, raw = trim line\<rparr>))
       \<and> (match_start bracket (trim line) = None \<longrightarrow>
            match_start dash (trim line) = None \<longrightarrow>
            match_start systemDash (trim line) = None \<longrightarrow>
            parseLine line n = Failed n (trim line) NoMatchingPattern)"
  using nonblank by (simp add: parseLine_def Let_def)

lemma trim_plain:
  "trim ''[32/13/2024, 10:02 AM] C: x'' = ''[32/13/2024, 10:02 AM] C: x''"
  "trim ''32/13/2024, 10:00 - Bob: hi'' = ''32/13/2024, 10:00 - Bob: hi''"
  "trim ''bad line'' = ''bad line''"
  by (simp_all add: trim_def is_space_def)

lemma bracket_bad_date:
  "match_start bracket ''[32/13/2024, 10:02 AM] C: x''
     = Some \<lparr>m_before = [], m_whole = ''[32/13/2024, 10:02 AM] C: x'', m_after = [],
              m_groups = [(4, ''x''), (3, ''C''), (2, ''10:02 AM''), (1, ''32/13/2024'')]\<rparr>"
  by (simp add: rmatch_eval rx_defs cong: let_weak_cong)

lemma dash_bad_date:
  "match_start bracket ''32/13/2024, 10:00 - Bob: hi'' = None"
  "match_start dash ''32/13/2024, 10:00 - Bob: hi''
     = Some \<lparr>m_before = [], m_whole = ''32/13/2024, 10:00 - Bob: hi'', m_after = [],
              m_groups = [(4, ''hi''), (3, ''Bob''), (2, ''10:00''), (1, ''32/13/2024'')]\<rparr>"
  "match_start systemDash ''32/13/2024, 10:00 - Bob: hi'' \<noteq> None"
  by (simp_all add: rmatch_eval rx_defs cong: let_weak_cong)

lemma no_pattern:
  "match_start bracket ''bad line'' = None"
  "match_start dash ''bad line'' = None"
  "match_start systemDash ''bad line'' = None"
  by (simp_all add: rmatch_eval rx_defs cong: let_weak_cong)

lemma bad_dates:
  "parseDate ''32/13/2024'' ''10:02 AM'' = None"
  "parseDate ''32/13/2024'' ''10:00'' = None"
  by (simp_all add: rmatch_eval rx_defs date_defs cong: let_weak_cong)

theorem C7_first_match_wins_witness:
  "parseLine ''[32/13/2024, 10:02 AM] C: x'' 4
     = Failed 4 ''[32/13/2024, 10:02 AM] C: x'' InvalidDateFormat
   \<and> parseLine ''32/13/2024, 10:00 - Bob: hi'' 7
     = Failed 7 ''32/13/2024, 10:00 - Bob: hi'' InvalidDateFormat
   \<and> match_start systemDash ''32/13/2024, 10:00 - Bob: hi'' \<noteq> None
   \<and> parseLine ''bad line'' 2 = Failed 2 ''bad line'' NoMatchingPattern"
proof -
  have n1: "trim ''[32/13/2024, 10:02 AM] C: x'' \<noteq> []"
    and n2: "trim ''32/13/2024, 10:00 - Bob: hi'' \<noteq> []"
    and n3: "trim ''bad line'' \<noteq> []"
    by (simp_all add: trim_plain)
  have 1: "parseLine ''[32/13/2024, 10:02 AM] C: x'' 4
             = Failed 4 ''[32/13/2024, 10:02 AM] C: x'' InvalidDateFormat"
    using C7_first_match_wins [OF n1, of 4] bracket_bad_date bad_dates
    by (simp add: trim_plain grp_text_def grp_def)
  have 2: "parseLine ''32/13/2024, 10:00 - Bob: hi'' 7
             = Failed 7 ''32/13/2024, 10:00 - Bob: hi'' InvalidDateFormat"
    using C7_first_match_wins [OF n2, of 7] dash_bad_date bad_dates
    by (simp add: trim_plain grp_text_def grp_def)
  have 3: "parseLine ''bad line'' 2 = Failed 2 ''bad line'' NoMatchingPattern"
    using C7_first_match_wins [OF n3, of 2] no_pattern
    by (simp add: trim_plain)
  show ?thesis using 1 2 3 dash_bad_date(3) by simp
qed

subsection \<open>Media extraction\<close>

lemma rmatch_ilit:
  "rmatch (ilit c) s caps =
     (case s of [] \<Rightarrow> [] | x # xs \<Rightarrow> if lower_char x = lower_char c then [(xs, caps)] else [])"
  by (cases s) (simp_all add: ilit_def rmatch_eval)

lemma rmatch_istr:
  "rmatch (istr p) s caps =
     (if startsWith (toLowerCase s) (toLowerCase p) then [(drop (length p) s, caps)] else [])"
proof (induction p arbitrary: s)
  case Nil
  then show ?case by (simp add: istr_def rmatch_eval toLowerCase_def)
next
  case (Cons c p)
  show ?case
  proof (cases p)
    case Nil
    then show ?thesis
      by (cases s) (simp_all add: istr_def rmatch_ilit toLowerCase_def)
  next
    case (Cons c' p')
    have "istr (c # p) = Seq (ilit c) (istr p)" using Cons by (simp add: istr_def)
    then show ?thesis using Cons.IH
      by (cases s) (simp_all add: rmatch_eval rmatch_ilit toLowerCase_def)
  qed
qed

lemma rmatch_alts:
  "rs \<noteq> [] \<Longrightarrow> rmatch (alts rs) s caps \<noteq> [] \<longleftrightarrow> (\<exists>r \<in> set rs. rmatch r s caps \<noteq> [])"
proof (induction rs rule: alts.induct)
  case 1
  then show ?case by simp
next
  case (2 r)
  then show ?case by simp
next
  case (3 r v va)
  then show ?case by (simp add: rmatch_eval)
qed

lemma match_at_None: "match_at r pre s = None \<longleftrightarrow> rmatch r s [] = []"
  by (simp add: match_at_def split: list.splits)

lemma rmatch_Grp_Nil: "rmatch (Grp i r) s caps = [] \<longleftrightarrow> rmatch r s caps = []"
  by (simp add: rmatch_eval)

lemma match_phrases:
  "ps \<noteq> [] \<Longrightarrow>
     match_at (Grp 1 (alts (map istr ps))) pre s \<noteq> None
       \<longleftrightarrow> (\<exists>p \<in> set ps. startsWith (toLowerCase s) (toLowerCase p))"
  by (simp add: match_at_None rmatch_Grp_Nil rmatch_alts rmatch_istr)

lemma search_phrases:
  "ps \<noteq> [] \<Longrightarrow>
     search_from (Grp 1 (alts (map istr ps))) pre s \<noteq> None
       \<longleftrightarrow> (\<exists>p \<in> set ps. contains_ci s p)"
proof (induction s arbitrary: pre)
  case Nil
  then show ?case using match_phrases [of ps pre "[]"] by (simp add: toLowerCase_def)
next
  case (Cons x xs)
  show ?case
  proof (cases "match_at (Grp 1 (alts (map istr ps))) pre (x # xs)")
    case None
    then have "\<not> (\<exists>p \<in> set ps. startsWith (toLowerCase (x # xs)) (toLowerCase p))"
      using match_phrases [OF Cons.prems, of pre "x # xs"] by simp
    then show ?thesis using None Cons.IH [OF Cons.prems, of "pre @ [x]"] by auto
  next
    case (Some m)
    then have "\<exists>p \<in> set ps. startsWith (toLowerCase (x # xs)) (toLowerCase p)"
      using match_phrases [OF Cons.prems, of pre "x # xs"] by simp
    then show ?thesis using Some by auto
  qed
qed

lemma mediaOmitted_iff:
  "search mediaOmitted s \<noteq> None \<longleftrightarrow> (\<exists>p \<in> set omitted_phrases. contains_ci s p)"
proof -
  have "omitted_phrases \<noteq> []" by (simp add: omitted_phrases_def)
  then show ?thesis unfolding search_def mediaOmitted_def by (rule search_phrases)
qed

lemma contains_ci_iff:
  "contains_ci s p \<longleftrightarrow> (\<exists>pre post. toLowerCase s = pre @ toLowerCase p @ post)"
proof (induction s)
  case Nil
  then show ?case by (auto simp: startsWith_iff toLowerCase_def)
next
  case (Cons x xs)
  show ?case
  proof
    assume "contains_ci (x # xs) p"
    then consider "startsWith (toLowerCase (x # xs)) (toLowerCase p)" | "contains_ci xs p" by auto
    then show "\<exists>pre post. toLowerCase (x # xs) = pre @ toLowerCase p @ post"
    proof cases
      case 1
      then obtain r where "toLowerCase (x # xs) = toLowerCase p @ r" by (auto simp: startsWith_iff)
      then have "toLowerCase (x # xs) = [] @ toLowerCase p @ r" by simp
      then show ?thesis by blast
    next
      case 2
      then obtain pre post where "toLowerCase xs = pre @ toLowerCase p @ post"
        using Cons.IH by blast
      then have "toLowerCase (x # xs) = (lower_char x # pre) @ toLowerCase p @ post"
        by (simp add: toLowerCase_def)
      then show ?thesis by blast
    qed
  next
    assume "\<exists>pre post. toLowerCase (x # xs) = pre @ toLowerCase p @ post"
    then obtain pre post where e: "toLowerCase (x # xs) = pre @ toLowerCase p @ post" by blast
    show "contains_ci (x # xs) p"
    proof (cases pre)
      case Nil
      then show ?thesis using e by (auto simp: startsWith_iff)
    next
      case (Cons a pre')
      then have "toLowerCase xs = pre' @ toLowerCase p @ post" using e by (simp add: toLowerCase_def)
      then show ?thesis using Cons.IH by auto
    qed
  qed
qed


text \<open>
  Claim C8, as the code has it. \<^verbatim>\<open>extractMediaInfo\<close> applies exactly one of four cases, the
  first that fits: (a) an \<^verbatim>\<open><attached: NAME>\<close> marker anywhere in the body; (b) otherwise a
  leading file name with a known extension; (c) otherwise one of the omitted-media phrases
  anywhere in the body, ignoring case, where the first phrase is \<^verbatim>\<open><Media omitted>\<close> with
  its angle brackets: then the kind is \<open>Omitted\<close>, there is no file name and the text is
  the body unchanged; (d) otherwise no media.
\<close>

theorem C8_media_extraction_order:
  "(\<forall>am. search attachment body = Some am \<longrightarrow>
      extractMediaInfo body =
        \<lparr>mi_hasMedia = True, mi_filename = Some (trim (grp_text am 1)),
         mi_type = Some (getMediaType (trim (grp_text am 1))),
         mi_text = trim (m_before am @ m_after am)\<rparr>)
   \<and> (\<forall>fm. search attachment body = None \<longrightarrow>
          match_start filenamePattern body = Some fm \<longrightarrow>
          search mediaExtensions_re (grp_text fm 1) \<noteq> None \<longrightarrow>
      extractMediaInfo body =
        \<lparr>mi_hasMedia = True, mi_filename = Some (grp_text fm 1),
         mi_type = Some (getMediaType (grp_text fm 1)),
         mi_text = trim (drop (length (grp_text fm 1)) body)\<rparr>)
   \<and> (search attachment body = None \<longrightarrow>
        (match_start filenamePattern body = None
         \<or> (\<exists>fm. match_start filenamePattern body = Some fm
                  \<and> search mediaExtensions_re (grp_text fm 1) = None)) \<longrightarrow>
        (\<exists>p \<in> set omitted_phrases. \<exists>pre post. toLowerCase body = pre @ toLowerCase p @ post) \<longrightarrow>
      extractMediaInfo body =
        \<lparr>mi_hasMedia = True, mi_filename = None, mi_type = Some Omitted, mi_text = body\<rparr>)
   \<and> (search attachment body = None \<longrightarrow>
        (match_start filenamePattern body = None
         \<or> (\<exists>fm. match_start filenamePattern body = Some fm
                  \<and> search mediaExtensions_re (grp_text fm 1) = None)) \<longrightarrow>
        \<not> (\<exists>p \<in> set omitted_phrases. \<exists>pre post. toLowerCase body = pre @ toLowerCase p @ post) \<longrightarrow>
      extractMediaInfo body =
        \<lparr>mi_hasMedia = False, mi_filename = None, mi_type = None, mi_text = body\<rparr>)"
proof -
  have om: "search mediaOmitted body \<noteq> None
      \<longleftrightarrow> (\<exists>p \<in> set omitted_phrases. \<exists>pre post. toLowerCase body = pre @ toLowerCase p @ post)"
    unfolding contains_ci_iff [symmetric] by (rule mediaOmitted_iff)
  show ?thesis
    unfolding om [symmetric]
    by (auto simp: extractMediaInfo_def Let_def split: option.splits)
qed

lemma omitted_examples:
  "search attachment ''<Media omitted>'' = None"
  "match_start filenamePattern ''<Media omitted>'' = None"
  "search attachment ''media omitted'' = None"
  "match_start filenamePattern ''media omitted'' = None"
  "search mediaOmitted ''media omitted'' = None"
  by (simp_all add: rmatch_eval rx_defs cong: let_weak_cong)

theorem C8_media_extraction_order_witness:
  "extractMediaInfo ''<Media omitted>''
     = \<lparr>mi_hasMedia = True, mi_filename = None, mi_type = Some Omitted, mi_text = ''<Media omitted>''\<rparr>"
proof -
  have "toLowerCase ''<Media omitted>'' = [] @ toLowerCase ''<Media omitted>'' @ []" by simp
  then have "\<exists>p \<in> set omitted_phrases. \<exists>pre post.
               toLowerCase ''<Media omitted>'' = pre @ toLowerCase p @ post"
    unfolding omitted_phrases_def by (metis list.set_intros(1))
  with C8_media_extraction_order [of "''<Media omitted>''"] omitted_examples(1,2)
  show ?thesis by blast
qed

text \<open>
  Claim C8 as stated fails: the body \<^verbatim>\<open>media omitted\<close>, without the angle brackets, matches
  none of the phrases and is not marked as omitted media.
\<close>

theorem C8_counterexample:
  "extractMediaInfo ''media omitted''
     = \<lparr>mi_hasMedia = False, mi_filename = None, mi_type = None, mi_text = ''media omitted''\<rparr>"
  by (simp add: extractMediaInfo_def omitted_examples)

end
